theory Spec2Isabelle
  imports Main "HOL-Library.AList"
begin

section \<open>The metrics string indexer: keys, collections and result accumulators\<close>

text \<open>
  A shallow embedding of \<^verbatim>\<open>src/sentry/sentry_metrics/indexer/base.py\<close>.

  Python values are modelled as follows.
  \<^item> \<^verbatim>\<open>str\<close> is \<open>string\<close>, \<^verbatim>\<open>int\<close> is \<open>int\<close>, \<^verbatim>\<open>Optional[int]\<close> is \<open>int option\<close>.
  \<^item> A \<^verbatim>\<open>dict\<close> is an association list in insertion order whose keys are distinct
    (\<open>wf_dict\<close>); \<^verbatim>\<open>d[k] = v\<close> keeps the position of a key already present and appends a
    new key, which is what \<open>AList.update\<close> does.
  \<^item> A \<^verbatim>\<open>set\<close> of strings is a list without duplicates, in the order of iteration.
  \<^item> A \<^verbatim>\<open>defaultdict\<close> is a dict whose read of a missing key inserts the default and
    returns it (\<open>dd_getitem\<close>).
  \<^item> A raised exception is the left injection of a sum.
  \<^item> A method that mutates its receiver returns the updated receiver.
\<close>

subsection \<open>Python built-ins\<close>

datatype py_error = ValueError | KeyError

type_synonym ('k, 'v) dict = "('k \<times> 'v) list"

definition wf_dict :: "('k, 'v) dict \<Rightarrow> bool" where
  "wf_dict d = distinct (map fst d)"

definition dict_set :: "('k, 'v) dict \<Rightarrow> 'k \<Rightarrow> 'v \<Rightarrow> ('k, 'v) dict" where
  \<comment> \<open>\<^verbatim>\<open>d[k] = v\<close>\<close>
  "dict_set d k v = AList.update k v d"

definition dict_update :: "('k, 'v) dict \<Rightarrow> ('k, 'v) dict \<Rightarrow> ('k, 'v) dict" where
  \<comment> \<open>\<^verbatim>\<open>d.update(e)\<close>: the items of \<open>e\<close> are stored one after the other\<close>
  "dict_update d e = fold (\<lambda>(k, v) acc. dict_set acc k v) e d"

definition dict_get :: "('k, 'v option) dict \<Rightarrow> 'k \<Rightarrow> 'v option" where
  \<comment> \<open>\<^verbatim>\<open>d.get(k)\<close> on a dict of optional values: \<^verbatim>\<open>None\<close> for a missing key and for a
      stored \<^verbatim>\<open>None\<close>\<close>
  "dict_get d k = (case map_of d k of None \<Rightarrow> None | Some v \<Rightarrow> v)"

definition py_truthy :: "int option \<Rightarrow> bool" where
  \<comment> \<open>truth value of an \<^verbatim>\<open>Optional[int]\<close>: \<^verbatim>\<open>None\<close> and \<^verbatim>\<open>0\<close> are falsy\<close>
  "py_truthy v = (case v of None \<Rightarrow> False | Some n \<Rightarrow> n \<noteq> 0)"

definition dd_getitem :: "'v \<Rightarrow> ('k, 'v) dict \<Rightarrow> 'k \<Rightarrow> 'v \<times> ('k, 'v) dict" where
  \<comment> \<open>\<^verbatim>\<open>d[k]\<close> on a \<^verbatim>\<open>defaultdict\<close> with default \<open>dflt\<close>: the value and the dict after the read\<close>
  "dd_getitem dflt d k =
     (case map_of d k of
        Some v \<Rightarrow> (v, d)
      | None \<Rightarrow> (dflt, d @ [(k, dflt)]))"

definition dd_modify :: "'v \<Rightarrow> ('k, 'v) dict \<Rightarrow> 'k \<Rightarrow> ('v \<Rightarrow> 'v) \<Rightarrow> ('k, 'v) dict" where
  \<comment> \<open>\<^verbatim>\<open>d[k].method(...)\<close> on a \<^verbatim>\<open>defaultdict\<close>, where the method mutates the value in place\<close>
  "dd_modify dflt d k f = (case dd_getitem dflt d k of (v, d') \<Rightarrow> dict_set d' k (f v))"

definition set_add :: "string list \<Rightarrow> string \<Rightarrow> string list" where
  \<comment> \<open>\<^verbatim>\<open>s.add(x)\<close>\<close>
  "set_add ss x = (if x \<in> set ss then ss else ss @ [x])"

text \<open>
  \<^verbatim>\<open>str(i)\<close> for an integer, as used by the f-strings: decimal, a minus sign for negatives.
  The interpreter's limit on the number of digits of a converted integer is not modelled.
\<close>

definition digit_char :: "nat \<Rightarrow> char" where
  "digit_char d = ''0123456789'' ! d"

definition is_digit :: "char \<Rightarrow> bool" where
  "is_digit c = (c \<in> set ''0123456789'')"

definition digit_val :: "char \<Rightarrow> nat" where
  "digit_val c = of_char c - 48"

fun str_nat :: "nat \<Rightarrow> string" where
  "str_nat n = (if n < 10 then [digit_char n] else str_nat (n div 10) @ [digit_char (n mod 10)])"

declare str_nat.simps [simp del]

definition py_str :: "int \<Rightarrow> string" where
  "py_str i = (if i < 0 then CHR ''-'' # str_nat (nat (- i)) else str_nat (nat i))"

text \<open>
  \<^verbatim>\<open>int(s)\<close> on the ASCII part of its domain: surrounding whitespace is stripped, one sign is
  allowed, then decimal digits follow, with single underscores allowed between digits.
  Anything else raises \<^verbatim>\<open>ValueError\<close>.
\<close>

definition is_space :: "char \<Rightarrow> bool" where
  "is_space c = (c \<in> set [CHR '' '', CHR 0x09, CHR 0x0A, CHR 0x0B, CHR 0x0C, CHR 0x0D])"

definition strip :: "string \<Rightarrow> string" where
  "strip s = rev (dropWhile is_space (rev (dropWhile is_space s)))"

fun parse_digits :: "nat \<Rightarrow> bool \<Rightarrow> string \<Rightarrow> nat option" where
  "parse_digits acc prev [] = (if prev then Some acc else None)"
| "parse_digits acc prev (c # cs) =
     (if is_digit c then parse_digits (10 * acc + digit_val c) True cs
      else if c = CHR ''_'' \<and> prev then parse_digits acc False cs
      else None)"

definition py_int :: "string \<Rightarrow> py_error + int" where
  "py_int s =
     (case strip s of
        [] \<Rightarrow> Inl ValueError
      | c # cs \<Rightarrow>
          (if c = CHR ''-'' then
             (case parse_digits 0 False cs of None \<Rightarrow> Inl ValueError | Some n \<Rightarrow> Inr (- int n))
           else if c = CHR ''+'' then
             (case parse_digits 0 False cs of None \<Rightarrow> Inl ValueError | Some n \<Rightarrow> Inr (int n))
           else
             (case parse_digits 0 False (c # cs) of None \<Rightarrow> Inl ValueError | Some n \<Rightarrow> Inr (int n))))"

text \<open>\<^verbatim>\<open>s.split(sep, maxsplit)\<close> for a separator of one character.\<close>

fun py_split :: "char \<Rightarrow> nat \<Rightarrow> string \<Rightarrow> string list" where
  "py_split sep 0 s = [s]"
| "py_split sep (Suc n) s =
     (if sep \<in> set s
      then takeWhile (\<lambda>c. c \<noteq> sep) s # py_split sep n (tl (dropWhile (\<lambda>c. c \<noteq> sep) s))
      else [s])"

subsection \<open>FetchType, Metadata, KeyResult, UseCaseKeyResult\<close>

datatype FetchType = CACHE_HIT | HARDCODED | DB_READ | FIRST_SEEN | RATE_LIMITED

datatype FetchTypeExt = FetchTypeExt (is_global: bool)

datatype Metadata =
  Metadata (id_md: "int option") (fetch_type: FetchType) (fetch_type_ext: "FetchTypeExt option")

datatype KeyResult = KeyResult (org_id: int) (string: string) (id_kr: "int option")

datatype UseCaseKeyResult =
  UseCaseKeyResult (use_case_id: string) (org_id_uc: int) (string_uc: string) (id_uc: "int option")

text \<open>
  \<^verbatim>\<open>org_id, string = key.split(":", 1)\<close>: unpacking into two names raises \<^verbatim>\<open>ValueError\<close> unless
  the list has exactly two elements.
\<close>

definition KeyResult_from_string :: "string \<Rightarrow> int \<Rightarrow> py_error + KeyResult" where
  "KeyResult_from_string key i =
     (case py_split CHR '':'' 1 key of
        [org, s] \<Rightarrow>
          (case py_int org of
             Inl e \<Rightarrow> Inl e
           | Inr n \<Rightarrow> Inr (KeyResult n s (Some i)))
      | _ \<Rightarrow> Inl ValueError)"

text \<open>
  \<^verbatim>\<open>use_case_id, org_id, string = key.split(":", 1)\<close>: the same split, unpacked into three
  names.
\<close>

definition UseCaseKeyResult_from_string :: "string \<Rightarrow> int \<Rightarrow> py_error + UseCaseKeyResult" where
  "UseCaseKeyResult_from_string key i =
     (case py_split CHR '':'' 1 key of
        [uc, org, s] \<Rightarrow>
          (case py_int org of
             Inl e \<Rightarrow> Inl e
           | Inr n \<Rightarrow> Inr (UseCaseKeyResult uc n s (Some i)))
      | _ \<Rightarrow> Inl ValueError)"

definition fmt_key :: "int \<Rightarrow> string \<Rightarrow> string" where
  \<comment> \<open>\<^verbatim>\<open>f"{org_id}:{string}"\<close>\<close>
  "fmt_key org s = py_str org @ '':'' @ s"

definition fmt_use_case_key :: "string \<Rightarrow> string \<Rightarrow> string" where
  \<comment> \<open>\<^verbatim>\<open>f"{use_case_id}:{string}"\<close>\<close>
  "fmt_use_case_key uc s = uc @ '':'' @ s"

subsection \<open>KeyCollection\<close>

record KeyCollection =
  mapping :: "(int, string list) dict"
  size_kc :: nat

text \<open>
  \<^verbatim>\<open>_size\<close>: the loop over \<^verbatim>\<open>self.mapping.keys()\<close>; \<^verbatim>\<open>self.mapping[org_id]\<close> raises
  \<^verbatim>\<open>KeyError\<close> on a missing key.
\<close>

fun size_loop :: "(int, string list) dict \<Rightarrow> int list \<Rightarrow> nat \<Rightarrow> py_error + nat" where
  "size_loop m [] total_size = Inr total_size"
| "size_loop m (org # orgs) total_size =
     (case map_of m org of
        None \<Rightarrow> Inl KeyError
      | Some ss \<Rightarrow> size_loop m orgs (total_size + length ss))"

definition KeyCollection_init :: "(int, string list) dict \<Rightarrow> py_error + KeyCollection" where
  "KeyCollection_init m =
     (case size_loop m (map fst m) 0 of
        Inl e \<Rightarrow> Inl e
      | Inr n \<Rightarrow> Inr \<lparr>mapping = m, size_kc = n\<rparr>)"

fun as_tuples_loop ::
  "(int, string list) dict \<Rightarrow> int list \<Rightarrow> (int \<times> string) list \<Rightarrow> py_error + (int \<times> string) list"
where
  "as_tuples_loop m [] key_pairs = Inr key_pairs"
| "as_tuples_loop m (org # orgs) key_pairs =
     (case map_of m org of
        None \<Rightarrow> Inl KeyError
      | Some ss \<Rightarrow> as_tuples_loop m orgs (key_pairs @ map (\<lambda>s. (org, s)) ss))"

definition as_tuples :: "KeyCollection \<Rightarrow> py_error + (int \<times> string) list" where
  "as_tuples self = as_tuples_loop (mapping self) (map fst (mapping self)) []"

definition wf_mapping :: "(int, string list) dict \<Rightarrow> bool" where
  "wf_mapping m = (wf_dict m \<and> list_all (\<lambda>(org, ss). distinct ss) m)"

definition in_mapping :: "(int, string list) dict \<Rightarrow> int \<Rightarrow> string \<Rightarrow> bool" where
  \<comment> \<open>\<open>s\<close> is in the set stored for \<open>org\<close>\<close>
  "in_mapping m org s = (case map_of m org of None \<Rightarrow> False | Some ss \<Rightarrow> s \<in> set ss)"

definition in_collection :: "KeyCollection \<Rightarrow> int \<Rightarrow> string \<Rightarrow> bool" where
  \<comment> \<open>the key \<open>(org, s)\<close> is one of the collection's keys\<close>
  "in_collection c org s = in_mapping (mapping c) org s"

subsection \<open>KeyResults\<close>

record KeyResults =
  results :: "(int, (string, int option) dict) dict"
  meta :: "(int, (string, Metadata) dict) dict"

definition KeyResults_init :: KeyResults where
  "KeyResults_init = \<lparr>results = [], meta = []\<rparr>"

definition wf_nested :: "('a, ('b, 'c) dict) dict \<Rightarrow> bool" where
  "wf_nested d = (wf_dict d \<and> list_all (\<lambda>(k, sub). wf_dict sub) d)"

definition wf_KeyResults :: "KeyResults \<Rightarrow> bool" where
  "wf_KeyResults r = (wf_nested (results r) \<and> wf_nested (meta r))"

definition lookup2 :: "('a, ('b, 'c) dict) dict \<Rightarrow> 'a \<Rightarrow> 'b \<Rightarrow> 'c option" where
  \<comment> \<open>the entry of a nested dict at \<open>(org, s)\<close>, \<open>None\<close> when either level lacks the key\<close>
  "lookup2 d org s = (case map_of d org of None \<Rightarrow> None | Some sub \<Rightarrow> map_of sub s)"

text \<open>
  \<^verbatim>\<open>add_key_result\<close>: both \<^verbatim>\<open>results\<close> and \<^verbatim>\<open>meta\<close> are \<^verbatim>\<open>defaultdict(dict)\<close>. The test
  \<^verbatim>\<open>if fetch_type:\<close> on an \<^verbatim>\<open>Optional[FetchType]\<close> fails for \<^verbatim>\<open>None\<close> only, since every member
  of the enumeration is truthy.
\<close>

definition add_key_result ::
  "KeyResults \<Rightarrow> KeyResult \<Rightarrow> FetchType option \<Rightarrow> FetchTypeExt option \<Rightarrow> KeyResults"
where
  "add_key_result self key_result ft ft_ext =
     (let self1 = self\<lparr>results :=
            dd_modify [] (results self) (org_id key_result)
              (\<lambda>sub. dict_update sub [(string key_result, id_kr key_result)])\<rparr>
      in case ft of
           None \<Rightarrow> self1
         | Some f \<Rightarrow>
             self1\<lparr>meta :=
               dd_modify [] (meta self1) (org_id key_result)
                 (\<lambda>sub. dict_set sub (string key_result) (Metadata (id_kr key_result) f ft_ext))\<rparr>)"

definition get_mapped_results :: "KeyResults \<Rightarrow> (int, (string, int option) dict) dict" where
  "get_mapped_results self = filter (\<lambda>(k, v). length v > 0) (results self)"

definition has_resolved :: "(string, int option) dict \<Rightarrow> bool" where
  \<comment> \<open>some string of the sub-mapping has a non-null id\<close>
  "has_resolved sub = list_ex (\<lambda>(s, i). i \<noteq> None) sub"

text \<open>
  \<^verbatim>\<open>get_unmapped_keys\<close>: the state of the two loops is \<^verbatim>\<open>self.results\<close> (read through the
  \<^verbatim>\<open>defaultdict\<close>) and \<^verbatim>\<open>unmapped_org_strings\<close>.
\<close>

fun unmapped_strings ::
  "int \<Rightarrow> string list \<Rightarrow>
   (int, (string, int option) dict) dict \<times> (int, string list) dict \<Rightarrow>
   (int, (string, int option) dict) dict \<times> (int, string list) dict"
where
  "unmapped_strings org [] st = st"
| "unmapped_strings org (s # ss) (res, unmapped) =
     (case dd_getitem [] res org of
        (sub, res') \<Rightarrow>
          if \<not> py_truthy (dict_get sub s)
          then unmapped_strings org ss (res', dd_modify [] unmapped org (\<lambda>strs. set_add strs s))
          else unmapped_strings org ss (res', unmapped))"

definition get_unmapped_keys ::
  "KeyResults \<Rightarrow> KeyCollection \<Rightarrow> py_error + (KeyCollection \<times> KeyResults)"
where
  "get_unmapped_keys self keys =
     (case fold (\<lambda>(org, strings) st. unmapped_strings org strings st) (mapping keys)
             (results self, []) of
        (res, unmapped) \<Rightarrow>
          (case KeyCollection_init unmapped of
             Inl e \<Rightarrow> Inl e
           | Inr kc \<Rightarrow> Inr (kc, self\<lparr>results := res\<rparr>)))"

definition cache_strings ::
  "int \<Rightarrow> (string, int option) dict \<Rightarrow> (string, int) dict \<Rightarrow> (string, int) dict"
where
  \<comment> \<open>the inner loop of \<^verbatim>\<open>get_mapped_key_strings_to_ints\<close>\<close>
  "cache_strings org result_dict cache_key_results =
     fold (\<lambda>(s, i) acc. case i of None \<Rightarrow> acc | Some n \<Rightarrow> dict_set acc (fmt_key org s) n)
       result_dict cache_key_results"

definition get_mapped_key_strings_to_ints :: "KeyResults \<Rightarrow> (string, int) dict" where
  "get_mapped_key_strings_to_ints self =
     fold (\<lambda>(org, result_dict) acc. cache_strings org result_dict acc) (results self) []"

definition merge_into ::
  "('a, ('b, 'c) dict) dict \<Rightarrow> ('a, ('b, 'c) dict) dict \<Rightarrow> ('a, ('b, 'c) dict) dict"
where
  \<comment> \<open>\<^verbatim>\<open>for org_id, strings in items: target[org_id].update(strings)\<close>\<close>
  "merge_into items target =
     fold (\<lambda>(org, strings) acc. dd_modify [] acc org (\<lambda>sub. dict_update sub strings)) items target"

definition KeyResults_merge :: "KeyResults \<Rightarrow> KeyResults \<Rightarrow> KeyResults" where
  "KeyResults_merge self other =
     \<lparr>results = merge_into (results other @ results self) [],
      meta = merge_into (meta other) (merge_into (meta self) [])\<rparr>"

subsection \<open>UseCaseKeyResults\<close>

record UseCaseKeyResults =
  results_uc :: "(string, KeyResults) dict"

definition wf_UseCaseKeyResults :: "UseCaseKeyResults \<Rightarrow> bool" where
  "wf_UseCaseKeyResults u =
     (wf_dict (results_uc u) \<and> list_all (\<lambda>(uc, kr). wf_KeyResults kr) (results_uc u))"

definition prefix_use_case :: "string \<Rightarrow> (string, int) dict \<Rightarrow> (string, int) dict \<Rightarrow> (string, int) dict"
where
  \<comment> \<open>the inner \<^verbatim>\<open>for\<close> of the dict comprehension of \<^verbatim>\<open>get_mapped_strings_to_ints\<close>\<close>
  "prefix_use_case uc flat acc = fold (\<lambda>(s, i) acc. dict_set acc (fmt_use_case_key uc s) i) flat acc"

definition get_mapped_strings_to_ints :: "UseCaseKeyResults \<Rightarrow> (string, int) dict" where
  "get_mapped_strings_to_ints self =
     fold (\<lambda>(uc, key_results) acc. prefix_use_case uc (get_mapped_key_strings_to_ints key_results) acc)
       (results_uc self) []"

text \<open>
  \<^verbatim>\<open>merge_use_case\<close>: a read of \<^verbatim>\<open>results[use_case_id]\<close> for a key that is present returns the
  stored value. The last read, \<^verbatim>\<open>other.results[use_case_id]\<close>, is not guarded by a membership
  test; on a plain dict (which is what \<^verbatim>\<open>merge\<close> itself stores in \<^verbatim>\<open>results\<close>) a missing key
  raises \<^verbatim>\<open>KeyError\<close>, which is the branch modelled here (a \<^verbatim>\<open>defaultdict\<close> would insert an
  empty KeyResults instead). The branch is not reached from \<^verbatim>\<open>merge\<close>, see
  \<open>merge_loop_eq\<close> below.
\<close>

definition merge_use_case ::
  "UseCaseKeyResults \<Rightarrow> UseCaseKeyResults \<Rightarrow> string \<Rightarrow> py_error + KeyResults"
where
  "merge_use_case self other uc =
     (case (map_of (results_uc self) uc, map_of (results_uc other) uc) of
        (Some a, Some b) \<Rightarrow> Inr (KeyResults_merge a b)
      | (Some a, None) \<Rightarrow> Inr a
      | (None, Some b) \<Rightarrow> Inr b
      | (None, None) \<Rightarrow> Inl KeyError)"

fun merge_loop ::
  "UseCaseKeyResults \<Rightarrow> UseCaseKeyResults \<Rightarrow> string list \<Rightarrow> (string, KeyResults) dict \<Rightarrow>
   py_error + (string, KeyResults) dict"
where
  "merge_loop self other [] acc = Inr acc"
| "merge_loop self other (uc # ucs) acc =
     (case merge_use_case self other uc of
        Inl e \<Rightarrow> Inl e
      | Inr kr \<Rightarrow> merge_loop self other ucs (dict_set acc uc kr))"

text \<open>
  The comprehension iterates over \<^verbatim>\<open>set(self.results.keys()) | set(other.results.keys())\<close>.
  Python leaves the order of that set open; the model takes the keys of \<open>self\<close> followed by the
  new keys of \<open>other\<close>. The theorems below speak of lookups and key sets only.
\<close>

definition UseCaseKeyResults_merge ::
  "UseCaseKeyResults \<Rightarrow> UseCaseKeyResults \<Rightarrow> py_error + UseCaseKeyResults"
where
  "UseCaseKeyResults_merge self other =
     (case merge_loop self other
             (remdups (map fst (results_uc self) @ map fst (results_uc other))) [] of
        Inl e \<Rightarrow> Inl e
      | Inr d \<Rightarrow> Inr \<lparr>results_uc = d\<rparr>)"

section \<open>Properties\<close>

subsection \<open>Decimal rendering and parsing\<close>

lemma digit_cases: "d < 10 \<Longrightarrow> d \<in> {0, 1, 2, 3, 4, 5, 6, 7, 8, 9::nat}"
  by auto

lemma digit_char_props:
  assumes "d < 10"
  shows "is_digit (digit_char d)" and "digit_val (digit_char d) = d"
    and "\<not> is_space (digit_char d)" and "digit_char d \<noteq> CHR '':''"
    and "digit_char d \<noteq> CHR ''-''" and "digit_char d \<noteq> CHR ''+''"
  using digit_cases [OF assms]
  by (auto simp: digit_char_def is_digit_def digit_val_def is_space_def)

lemma str_nat_nonempty: "str_nat n \<noteq> []"
  by (subst str_nat.simps) simp

lemma str_nat_digits: "c \<in> set (str_nat n) \<Longrightarrow> c \<in> set ''0123456789''"
proof (induction n rule: str_nat.induct)
  case (1 n)
  show ?case
  proof (cases "n < 10")
    case True
    with "1.prems" have "c = digit_char n" by (subst (asm) str_nat.simps) simp
    with digit_char_props(1) [OF True] show ?thesis by (simp add: is_digit_def)
  next
    case False
    have m: "n mod 10 < 10" by simp
    from False "1.prems" have "c \<in> set (str_nat (n div 10)) \<or> c = digit_char (n mod 10)"
      by (subst (asm) str_nat.simps) auto
    with "1.IH" [OF False] digit_char_props(1) [OF m] show ?thesis
      by (auto simp: is_digit_def)
  qed
qed

lemma parse_digits_str_nat:
  "parse_digits acc b (str_nat n @ ys) = parse_digits (acc * 10 ^ length (str_nat n) + n) True ys"
proof (induction n arbitrary: acc b ys rule: str_nat.induct)
  case (1 n)
  show ?case
  proof (cases "n < 10")
    case True
    then have "str_nat n = [digit_char n]" by (subst str_nat.simps) simp
    with digit_char_props(1,2) [OF True] show ?thesis by (simp add: mult.commute)
  next
    case False
    have m: "n mod 10 < 10" by simp
    from False have e: "str_nat n = str_nat (n div 10) @ [digit_char (n mod 10)]"
      by (subst str_nat.simps) simp
    have "parse_digits acc b (str_nat n @ ys)
        = parse_digits acc b (str_nat (n div 10) @ (digit_char (n mod 10) # ys))"
      by (simp add: e)
    also have "\<dots> = parse_digits (acc * 10 ^ length (str_nat (n div 10)) + n div 10) True
                      (digit_char (n mod 10) # ys)"
      by (rule "1.IH" [OF False])
    also have "\<dots> = parse_digits
        (10 * (acc * 10 ^ length (str_nat (n div 10)) + n div 10) + n mod 10) True ys"
      using digit_char_props(1,2) [OF m] by simp
    also have "10 * (acc * 10 ^ length (str_nat (n div 10)) + n div 10) + n mod 10
        = acc * 10 ^ length (str_nat n) + n"
      by (simp add: e algebra_simps)
    finally show ?thesis .
  qed
qed

lemma parse_str_nat: "parse_digits 0 False (str_nat n) = Some n"
  using parse_digits_str_nat [of 0 False n "[]"] by simp

lemma strip_id: "s \<noteq> [] \<Longrightarrow> \<not> is_space (hd s) \<Longrightarrow> \<not> is_space (last s) \<Longrightarrow> strip s = s"
proof -
  assume a: "s \<noteq> []" "\<not> is_space (hd s)" "\<not> is_space (last s)"
  have 1: "dropWhile is_space s = s" using a by (simp add: dropWhile_eq_self_iff)
  have "hd (rev s) = last s" using a by (simp add: hd_rev)
  then have 2: "dropWhile is_space (rev s) = rev s" using a by (simp add: dropWhile_eq_self_iff)
  show ?thesis by (simp add: strip_def 1 2)
qed

lemma is_digit_props:
  assumes "c \<in> set ''0123456789''"
  shows "\<not> is_space c" and "c \<noteq> CHR ''-''" and "c \<noteq> CHR ''+''" and "c \<noteq> CHR '':''"
  using assms by (auto simp: is_space_def)

lemma str_nat_hd: "hd (str_nat n) \<in> set ''0123456789''"
  using str_nat_digits [of "hd (str_nat n)" n] str_nat_nonempty [of n] by simp

lemma str_nat_last: "last (str_nat n) \<in> set ''0123456789''"
  using str_nat_digits [of "last (str_nat n)" n] str_nat_nonempty [of n] by simp

lemma strip_str_nat: "strip (str_nat n) = str_nat n"
  by (rule strip_id [OF str_nat_nonempty is_digit_props(1) [OF str_nat_hd]
        is_digit_props(1) [OF str_nat_last]])

lemma strip_minus_str_nat: "strip (CHR ''-'' # str_nat n) = CHR ''-'' # str_nat n"
proof (rule strip_id)
  show "\<not> is_space (hd (CHR ''-'' # str_nat n))" by (simp add: is_space_def)
  show "\<not> is_space (last (CHR ''-'' # str_nat n))"
    using is_digit_props(1) [OF str_nat_last [of n]] str_nat_nonempty [of n] by simp
qed simp

lemma py_int_py_str: "py_int (py_str i) = Inr i"
proof (cases "i < 0")
  case True
  then show ?thesis
    by (simp add: py_int_def py_str_def parse_str_nat strip_minus_str_nat)
next
  case False
  obtain c cs where e: "str_nat (nat i) = c # cs"
    using str_nat_nonempty [of "nat i"] by (cases "str_nat (nat i)") auto
  have c: "c \<in> set ''0123456789''" using str_nat_hd [of "nat i"] by (simp only: e list.sel)
  have s: "strip (c # cs) = c # cs" using strip_str_nat [of "nat i"] by (simp only: e)
  have p: "parse_digits 0 False (c # cs) = Some (nat i)"
    using parse_str_nat [of "nat i"] by (simp only: e)
  have "py_int (c # cs) = Inr i"
    using False is_digit_props(2,3) [OF c]
    by (simp add: py_int_def s p del: parse_digits.simps)
  with False show ?thesis by (simp add: py_str_def e)
qed

lemma py_str_no_colon: "CHR '':'' \<notin> set (py_str i)"
  using is_digit_props(4) [OF str_nat_digits, of "CHR '':''"] by (auto simp: py_str_def)

lemma takeWhile_sep: "sep \<notin> set a \<Longrightarrow> takeWhile (\<lambda>c. c \<noteq> sep) (a @ sep # s) = a"
  by (induction a) auto

lemma dropWhile_sep: "sep \<notin> set a \<Longrightarrow> dropWhile (\<lambda>c. c \<noteq> sep) (a @ sep # s) = sep # s"
  by (induction a) auto

lemma py_split_first:
  "sep \<notin> set a \<Longrightarrow> py_split sep 1 (a @ sep # s) = [a, s]"
  by (simp add: takeWhile_sep dropWhile_sep)

lemma py_split_1_length: "length (py_split sep 1 s) \<le> 2"
  by simp

subsection \<open>Parsing composite keys\<close>

text \<open>
  Claim C9. For every integer \<open>org\<close>, every string \<open>s\<close> and every id,
  \<^verbatim>\<open>KeyResult.from_string(f"{org}:{s}", id)\<close> returns \<^verbatim>\<open>KeyResult(org, s, id)\<close>: rendering with
  a colon and splitting at the first colon are inverse to each other, also when \<open>s\<close> contains
  colons or starts with one.
\<close>

theorem KeyResult_from_string_roundtrip:
  "KeyResult_from_string (fmt_key org s) i = Inr (KeyResult org s (Some i))"
  using py_split_first [OF py_str_no_colon, of org s]
  by (simp add: KeyResult_from_string_def fmt_key_def py_int_py_str del: py_split.simps)

text \<open>
  Claim C1. \<^verbatim>\<open>UseCaseKeyResult.from_string(key, id)\<close> should return
  \<^verbatim>\<open>UseCaseKeyResult(use_case_id, int(org_id), string, id)\<close> for a key
  \<^verbatim>\<open>"{use_case_id}:{org_id}:{string}"\<close>. The code splits with \<^verbatim>\<open>maxsplit = 1\<close>, which yields at
  most two parts, and unpacks them into three names: it raises \<^verbatim>\<open>ValueError\<close> on every key,
  the well-formed ones included.
\<close>

theorem UseCaseKeyResult_from_string_raises:
  "UseCaseKeyResult_from_string key i = Inl ValueError"
  by (simp add: UseCaseKeyResult_from_string_def)

lemma UseCaseKeyResult_from_string_example:
  "UseCaseKeyResult_from_string ''performance:1:a'' 10 = Inl ValueError"
  by (simp add: UseCaseKeyResult_from_string_def)

subsection \<open>Dictionaries\<close>

lemma map_of_dict_set: "map_of (dict_set d k v) = (map_of d)(k \<mapsto> v)"
  by (simp add: dict_set_def update_conv')

lemma map_of_dd_modify:
  "map_of (dd_modify dflt d k f) =
     (map_of d)(k \<mapsto> f (case map_of d k of None \<Rightarrow> dflt | Some v \<Rightarrow> v))"
  by (auto simp: dd_modify_def dd_getitem_def map_of_dict_set fun_eq_iff map_add_def
      split: option.splits)

lemma lookup2_dd_modify:
  "lookup2 (dd_modify dflt d k f) org s =
     (if org = k then map_of (f (case map_of d k of None \<Rightarrow> dflt | Some v \<Rightarrow> v)) s
      else lookup2 d org s)"
  by (simp add: lookup2_def map_of_dd_modify)

lemma map_of_dict_update:
  "distinct (map fst e) \<Longrightarrow>
   map_of (dict_update d e) k = (case map_of e k of Some v \<Rightarrow> Some v | None \<Rightarrow> map_of d k)"
proof (induction e arbitrary: d)
  case Nil
  then show ?case by (simp add: dict_update_def)
next
  case (Cons p e)
  obtain k' v' where p: "p = (k', v')" by (cases p)
  have d: "distinct (map fst e)" and n: "k' \<notin> fst ` set e" using Cons.prems p by auto
  have u: "dict_update d ((k', v') # e) = dict_update (dict_set d k' v') e"
    by (simp add: dict_update_def)
  have "map_of e k' = None" using n by (simp add: map_of_eq_None_iff)
  then show ?case
    by (auto simp: u Cons.IH [OF d] map_of_dict_set p split: option.splits)
qed

lemma lookup2_Cons:
  "lookup2 ((k, sub) # items) org s = (if org = k then map_of sub s else lookup2 items org s)"
  by (simp add: lookup2_def)

lemma lookup2_absent: "k \<notin> fst ` set items \<Longrightarrow> lookup2 items k s = None"
  using map_of_eq_None_iff [of items k] by (simp add: lookup2_def)

lemma lookup2_Nil: "lookup2 [] org s = None"
  by (simp add: lookup2_def)

lemma lookup2_merge_step:
  assumes "distinct (map fst strings)"
  shows "lookup2 (dd_modify [] acc org (\<lambda>sub. dict_update sub strings)) org' s =
     (if org' = org
      then (case map_of strings s of Some v \<Rightarrow> Some v | None \<Rightarrow> lookup2 acc org s)
      else lookup2 acc org' s)"
proof (cases "org' = org")
  case True
  show ?thesis
    unfolding lookup2_dd_modify
    by (cases "map_of acc org")
      (simp_all add: True map_of_dict_update [OF assms] lookup2_def split: option.split)
next
  case False
  then show ?thesis by (simp add: lookup2_dd_modify)
qed

lemma lookup2_merge_into:
  "wf_nested items \<Longrightarrow>
   lookup2 (merge_into items target) org s =
     (case lookup2 items org s of Some v \<Rightarrow> Some v | None \<Rightarrow> lookup2 target org s)"
proof (induction items arbitrary: target)
  case Nil
  then show ?case by (simp add: merge_into_def lookup2_Nil)
next
  case (Cons p items)
  obtain k sub where p: "p = (k, sub)" by (cases p)
  from Cons.prems p have w: "wf_nested items" and ds: "distinct (map fst sub)"
    and n: "k \<notin> fst ` set items"
    by (auto simp: wf_nested_def wf_dict_def)
  have step: "merge_into ((k, sub) # items) target =
      merge_into items (dd_modify [] target k (\<lambda>x. dict_update x sub))"
    by (simp add: merge_into_def)
  have ih: "lookup2 (merge_into ((k, sub) # items) target) org s =
      (case lookup2 items org s of
         Some v \<Rightarrow> Some v
       | None \<Rightarrow> lookup2 (dd_modify [] target k (\<lambda>x. dict_update x sub)) org s)"
    unfolding step by (rule Cons.IH [OF w])
  show ?case
  proof (cases "org = k")
    case True
    then show ?thesis
      unfolding p ih
      by (simp add: lookup2_absent [OF n] lookup2_merge_step [OF ds] lookup2_Cons
          split: option.split)
  next
    case False
    then show ?thesis
      unfolding p ih by (simp add: lookup2_merge_step [OF ds] lookup2_Cons split: option.split)
  qed
qed

lemma merge_into_append:
  "merge_into (xs @ ys) target = merge_into ys (merge_into xs target)"
  by (simp add: merge_into_def)

lemma lookup2_merge_two:
  assumes "wf_nested first" and "wf_nested second"
  shows "lookup2 (merge_into second (merge_into first [])) org s =
           (case lookup2 second org s of
              Some v \<Rightarrow> Some v
            | None \<Rightarrow> lookup2 first org s)"
proof -
  have "lookup2 (merge_into first []) org s = lookup2 first org s"
    by (cases "lookup2 first org s") (simp_all add: lookup2_merge_into [OF assms(1)] lookup2_Nil)
  then show ?thesis
    by (simp add: lookup2_merge_into [OF assms(2)] split: option.split)
qed

subsection \<open>KeyResults: merge and add\_key\_result\<close>

lemma add_key_result_results:
  "results (add_key_result r kr ft ext) =
     dd_modify [] (results r) (org_id kr) (\<lambda>sub. dict_update sub [(string kr, id_kr kr)])"
  by (simp add: add_key_result_def Let_def split: option.splits)

lemma add_key_result_meta_None: "meta (add_key_result r kr None ext) = meta r"
  by (simp add: add_key_result_def Let_def)

lemma add_key_result_meta_Some:
  "meta (add_key_result r kr (Some f) ext) =
     dd_modify [] (meta r) (org_id kr)
       (\<lambda>sub. dict_set sub (string kr) (Metadata (id_kr kr) f ext))"
  by (simp add: add_key_result_def Let_def)

lemma lookup2_results_add:
  "lookup2 (results (add_key_result r kr ft ext)) org s =
     (if org = org_id kr \<and> s = string kr then Some (id_kr kr) else lookup2 (results r) org s)"
proof -
  have d: "distinct (map fst [(string kr, id_kr kr)])" by simp
  show ?thesis
    unfolding add_key_result_results lookup2_merge_step [OF d] by simp
qed

lemma lookup2_meta_add:
  "lookup2 (meta (add_key_result r kr (Some f) ext)) org s =
     (if org = org_id kr \<and> s = string kr then Some (Metadata (id_kr kr) f ext)
      else lookup2 (meta r) org s)"
  unfolding add_key_result_meta_Some lookup2_dd_modify
  by (cases "map_of (meta r) (org_id kr)") (simp_all add: map_of_dict_set lookup2_def)

text \<open>
  Claim C2. Let stage \<open>a\<close> have run before stage \<open>b\<close>. In \<^verbatim>\<open>a.merge(b)\<close> the results entry of a
  key \<open>(org, s)\<close> is the entry of \<open>a\<close> when \<open>a\<close> has one, else the entry of \<open>b\<close>; the meta
  entry is the entry of \<open>b\<close> when \<open>b\<close> has one, else the entry of \<open>a\<close>. So for a key in both,
  the id comes from \<open>a\<close> (self wins) and the Metadata from \<open>b\<close> (other wins), and a key of one
  side only is passed through unchanged.
\<close>

theorem KeyResults_merge_asymmetry:
  assumes "wf_KeyResults a" and "wf_KeyResults b"
  shows "lookup2 (results (KeyResults_merge a b)) org s =
           (case lookup2 (results a) org s of
              Some i \<Rightarrow> Some i
            | None \<Rightarrow> lookup2 (results b) org s) \<and>
         lookup2 (meta (KeyResults_merge a b)) org s =
           (case lookup2 (meta b) org s of
              Some m \<Rightarrow> Some m
            | None \<Rightarrow> lookup2 (meta a) org s)"
proof -
  from assms have w: "wf_nested (results a)" "wf_nested (results b)"
      "wf_nested (meta a)" "wf_nested (meta b)"
    by (simp_all add: wf_KeyResults_def)
  have "lookup2 (results (KeyResults_merge a b)) org s =
           (case lookup2 (results a) org s of
              Some i \<Rightarrow> Some i
            | None \<Rightarrow> lookup2 (results b) org s)"
    by (simp add: KeyResults_merge_def merge_into_append lookup2_merge_two [OF w(2) w(1)])
  moreover have "lookup2 (meta (KeyResults_merge a b)) org s =
           (case lookup2 (meta b) org s of
              Some m \<Rightarrow> Some m
            | None \<Rightarrow> lookup2 (meta a) org s)"
    by (simp add: KeyResults_merge_def lookup2_merge_two [OF w(3) w(4)])
  ultimately show ?thesis by (rule conjI)
qed

theorem KeyResults_merge_asymmetry_witness:
  "wf_KeyResults \<lparr>results = [(1, [(''a'', Some 10), (''b'', Some 11)])],
                  meta = [(1, [(''a'', Metadata (Some 10) HARDCODED None)])]\<rparr> \<and>
   wf_KeyResults \<lparr>results = [(1, [(''a'', Some 20)]), (2, [(''e'', Some 21)])],
                  meta = [(1, [(''a'', Metadata (Some 20) DB_READ None)])]\<rparr> \<and>
   lookup2 (results (KeyResults_merge
       \<lparr>results = [(1, [(''a'', Some 10), (''b'', Some 11)])],
        meta = [(1, [(''a'', Metadata (Some 10) HARDCODED None)])]\<rparr>
       \<lparr>results = [(1, [(''a'', Some 20)]), (2, [(''e'', Some 21)])],
        meta = [(1, [(''a'', Metadata (Some 20) DB_READ None)])]\<rparr>)) 1 ''a'' = Some (Some 10) \<and>
   lookup2 (meta (KeyResults_merge
       \<lparr>results = [(1, [(''a'', Some 10), (''b'', Some 11)])],
        meta = [(1, [(''a'', Metadata (Some 10) HARDCODED None)])]\<rparr>
       \<lparr>results = [(1, [(''a'', Some 20)]), (2, [(''e'', Some 21)])],
        meta = [(1, [(''a'', Metadata (Some 20) DB_READ None)])]\<rparr>)) 1 ''a'' =
     Some (Metadata (Some 20) DB_READ None)"
proof -
  have a: "wf_KeyResults \<lparr>results = [(1, [(''a'', Some 10), (''b'', Some 11)])],
                  meta = [(1, [(''a'', Metadata (Some 10) HARDCODED None)])]\<rparr>"
    by (simp add: wf_KeyResults_def wf_nested_def wf_dict_def)
  have b: "wf_KeyResults \<lparr>results = [(1, [(''a'', Some 20)]), (2, [(''e'', Some 21)])],
                  meta = [(1, [(''a'', Metadata (Some 20) DB_READ None)])]\<rparr>"
    by (simp add: wf_KeyResults_def wf_nested_def wf_dict_def)
  show ?thesis
    using a b KeyResults_merge_asymmetry [OF a b, of 1 "''a''"]
    by (simp add: lookup2_def)
qed

text \<open>
  Claim C6. \<^verbatim>\<open>add_key_result\<close> with a null \<^verbatim>\<open>fetch_type\<close> leaves \<^verbatim>\<open>meta\<close> as it was and
  changes the results entry of \<open>(org_id, string)\<close> only, which then holds the id given. With
  a non-null \<^verbatim>\<open>fetch_type\<close> the meta entry of that key holds the new Metadata as well, and
  every other meta entry is as before. A second call for the same key replaces what the
  first one wrote.
\<close>

theorem add_key_result_upsert:
  "meta (add_key_result r kr None ext) = meta r \<and>
   lookup2 (results (add_key_result r kr ft ext)) org s =
     (if org = org_id kr \<and> s = string kr then Some (id_kr kr) else lookup2 (results r) org s) \<and>
   lookup2 (meta (add_key_result r kr (Some f) ext)) org s =
     (if org = org_id kr \<and> s = string kr then Some (Metadata (id_kr kr) f ext)
      else lookup2 (meta r) org s) \<and>
   lookup2 (results (add_key_result (add_key_result r kr' ft' ext') kr ft ext))
     (org_id kr) (string kr) = Some (id_kr kr) \<and>
   lookup2 (meta (add_key_result (add_key_result r kr' ft' ext') kr (Some f) ext))
     (org_id kr) (string kr) = Some (Metadata (id_kr kr) f ext)"
  by (simp only: add_key_result_meta_None lookup2_results_add lookup2_meta_add simp_thms if_True)

subsection \<open>KeyCollection\<close>

lemma map_of_wf_entry: "wf_dict m \<Longrightarrow> (k, v) \<in> set m \<Longrightarrow> map_of m k = Some v"
  by (simp add: wf_dict_def)

lemma size_loop_eq:
  "set orgs \<subseteq> fst ` set m \<Longrightarrow>
   size_loop m orgs t = Inr (t + sum_list (map (\<lambda>org. length (the (map_of m org))) orgs))"
proof (induction orgs arbitrary: t)
  case Nil
  then show ?case by simp
next
  case (Cons org orgs)
  then obtain ss where "map_of m org = Some ss"
    using map_of_eq_None_iff [of m org] by (cases "map_of m org") auto
  with Cons show ?case by simp
qed

lemma as_tuples_loop_eq:
  "set orgs \<subseteq> fst ` set m \<Longrightarrow>
   as_tuples_loop m orgs acc =
     Inr (acc @ concat (map (\<lambda>org. map (\<lambda>s. (org, s)) (the (map_of m org))) orgs))"
proof (induction orgs arbitrary: acc)
  case Nil
  then show ?case by simp
next
  case (Cons org orgs)
  then obtain ss where "map_of m org = Some ss"
    using map_of_eq_None_iff [of m org] by (cases "map_of m org") auto
  with Cons show ?case by simp
qed

lemma wf_dict_values:
  "wf_dict m \<Longrightarrow> map (\<lambda>org. f org (the (map_of m org))) (map fst m) = map (\<lambda>(org, ss). f org ss) m"
proof -
  assume w: "wf_dict m"
  have "\<And>p. p \<in> set m \<Longrightarrow> f (fst p) (the (map_of m (fst p))) = (case p of (org, ss) \<Rightarrow> f org ss)"
  proof -
    fix p assume "p \<in> set m"
    then have "map_of m (fst p) = Some (snd p)"
      using map_of_wf_entry [OF w, of "fst p" "snd p"] by simp
    then show "f (fst p) (the (map_of m (fst p))) = (case p of (org, ss) \<Rightarrow> f org ss)"
      by (simp add: case_prod_beta)
  qed
  then show ?thesis by simp
qed

lemma KeyCollection_init_total: "\<exists>n. KeyCollection_init m = Inr \<lparr>mapping = m, size_kc = n\<rparr>"
  by (simp add: KeyCollection_init_def size_loop_eq)

lemma KeyCollection_init_wf:
  "wf_dict m \<Longrightarrow>
   KeyCollection_init m = Inr \<lparr>mapping = m, size_kc = sum_list (map (\<lambda>(org, ss). length ss) m)\<rparr>"
proof -
  assume w: "wf_dict m"
  have "size_loop m (map fst m) 0 =
      Inr (0 + sum_list (map (\<lambda>org. length (the (map_of m org))) (map fst m)))"
    by (rule size_loop_eq) simp
  then have "size_loop m (map fst m) 0 = Inr (sum_list (map (\<lambda>(org, ss). length ss) m))"
    unfolding wf_dict_values [OF w, of "\<lambda>org ss. length ss"] by simp
  then show ?thesis by (simp add: KeyCollection_init_def)
qed

lemma as_tuples_wf:
  "wf_dict m \<Longrightarrow>
   as_tuples \<lparr>mapping = m, size_kc = n\<rparr> =
     Inr (concat (map (\<lambda>(org, ss). map (\<lambda>s. (org, s)) ss) m))"
proof -
  assume w: "wf_dict m"
  have "as_tuples_loop m (map fst m) [] =
      Inr ([] @ concat (map (\<lambda>org. map (\<lambda>s. (org, s)) (the (map_of m org))) (map fst m)))"
    by (rule as_tuples_loop_eq) simp
  then have "as_tuples_loop m (map fst m) [] =
      Inr (concat (map (\<lambda>(org, ss). map (\<lambda>s. (org, s)) ss) m))"
    unfolding wf_dict_values [OF w, of "\<lambda>org ss. map (\<lambda>s. (org, s)) ss"] by simp
  then show ?thesis by (simp add: as_tuples_def)
qed

lemma length_tuples:
  "length (concat (map (\<lambda>(org, ss). map (\<lambda>s. (org, s)) ss) m)) =
     sum_list (map (\<lambda>(org, ss). length ss) m)"
  by (induction m) auto

lemma set_tuples:
  "set (concat (map (\<lambda>(org, ss). map (\<lambda>s. (org, s)) ss) m)) =
     {(org, s). \<exists>ss. (org, ss) \<in> set m \<and> s \<in> set ss}"
  by (induction m) auto

lemma distinct_tuples:
  "wf_mapping m \<Longrightarrow> distinct (concat (map (\<lambda>(org, ss). map (\<lambda>s. (org, s)) ss) m))"
proof (induction m)
  case Nil
  then show ?case by simp
next
  case (Cons p m)
  obtain org ss where p: "p = (org, ss)" by (cases p)
  from Cons.prems p have w: "wf_mapping m" and d: "distinct ss" and n: "org \<notin> fst ` set m"
    by (auto simp: wf_mapping_def wf_dict_def)
  have "distinct (map (\<lambda>s. (org, s)) ss)" using d by (simp add: distinct_map inj_on_def)
  moreover have "set (map (\<lambda>s. (org, s)) ss) \<inter>
      set (concat (map (\<lambda>(org, ss). map (\<lambda>s. (org, s)) ss) m)) = {}"
    using n unfolding set_tuples by force
  ultimately show ?case using Cons.IH [OF w] by (simp add: p)
qed

lemma in_mapping_wf:
  "wf_dict m \<Longrightarrow> in_mapping m org s \<longleftrightarrow> (\<exists>ss. (org, ss) \<in> set m \<and> s \<in> set ss)"
  by (auto simp: in_mapping_def split: option.splits dest: map_of_SomeD map_of_wf_entry)

text \<open>
  Claim C8. For a KeyCollection built from a mapping \<open>m\<close> of org ids to sets of strings, the
  constructor does not raise, \<^verbatim>\<open>size\<close> is the sum of the sizes of the sets of \<open>m\<close>, and
  \<^verbatim>\<open>as_tuples()\<close> returns \<^verbatim>\<open>size\<close> pairwise distinct pairs, which are exactly the keys
  \<open>(org, s)\<close> of \<open>m\<close>. An org id mapped to the empty set adds zero.
\<close>

theorem KeyCollection_size_and_tuples:
  assumes "wf_mapping m"
  shows "\<exists>kc ts. KeyCollection_init m = Inr kc \<and> mapping kc = m \<and>
           size_kc kc = sum_list (map (\<lambda>(org, ss). length ss) m) \<and>
           as_tuples kc = Inr ts \<and> length ts = size_kc kc \<and> distinct ts \<and>
           (\<forall>org s. (org, s) \<in> set ts \<longleftrightarrow> in_collection kc org s)"
proof -
  from assms have w: "wf_dict m" by (simp add: wf_mapping_def)
  let ?kc = "\<lparr>mapping = m, size_kc = sum_list (map (\<lambda>(org, ss). length ss) m)\<rparr>"
  let ?ts = "concat (map (\<lambda>(org, ss). map (\<lambda>s. (org, s)) ss) m)"
  have "KeyCollection_init m = Inr ?kc" by (rule KeyCollection_init_wf [OF w])
  moreover have "as_tuples ?kc = Inr ?ts" by (rule as_tuples_wf [OF w])
  moreover have "length ?ts = size_kc ?kc" by (simp add: length_tuples)
  moreover have "distinct ?ts" by (rule distinct_tuples [OF assms])
  moreover have "\<forall>org s. (org, s) \<in> set ?ts \<longleftrightarrow> in_collection ?kc org s"
    unfolding set_tuples by (simp add: in_collection_def in_mapping_wf [OF w])
  ultimately show ?thesis by (intro exI [of _ ?kc] exI [of _ ?ts]) simp
qed

theorem KeyCollection_size_and_tuples_witness:
  "wf_mapping [(1, [''a'', ''b'']), (2, []), (3, [''a''])] \<and>
   KeyCollection_init [(1, [''a'', ''b'']), (2, []), (3, [''a''])] =
     Inr \<lparr>mapping = [(1, [''a'', ''b'']), (2, []), (3, [''a''])], size_kc = 3\<rparr> \<and>
   as_tuples \<lparr>mapping = [(1, [''a'', ''b'']), (2, []), (3, [''a''])], size_kc = 3\<rparr> =
     Inr [(1, ''a''), (1, ''b''), (3, ''a'')]"
proof -
  have w: "wf_mapping [(1, [''a'', ''b'']), (2, []), (3, [''a''])]"
    by (simp add: wf_mapping_def wf_dict_def)
  show ?thesis
    using w KeyCollection_size_and_tuples [OF w]
    by (simp add: KeyCollection_init_def as_tuples_def)
qed

subsection \<open>KeyResults: get-mapped-results\<close>

lemma get_mapped_results_wf:
  "wf_dict (results r) \<Longrightarrow>
   map_of (get_mapped_results r) org = Some sub \<longleftrightarrow> map_of (results r) org = Some sub \<and> sub \<noteq> []"
  by (auto simp: get_mapped_results_def wf_dict_def distinct_map_filter dest: map_of_SomeD)


text \<open>
  Claim C4 as stated says that \<^verbatim>\<open>get_mapped_results()\<close> returns only org entries with at least
  one resolved string. The code keeps every org whose sub-mapping is non-empty, also when all
  its ids are \<^verbatim>\<open>None\<close>: a rate-limited string is recorded with a null id, and its org is
  returned although no string of it is resolved.
\<close>

theorem get_mapped_results_unresolved_counterexample:
  "get_mapped_results
     \<lparr>results = [(1, [(''a'', None)])],
      meta = [(1, [(''a'', Metadata None RATE_LIMITED None)])]\<rparr> = [(1, [(''a'', None)])] \<and>
   \<not> has_resolved [(''a'', None)]"
  by (simp add: get_mapped_results_def has_resolved_def)

text \<open>
  Claim C4, amended. \<^verbatim>\<open>get_mapped_results()\<close> returns exactly the org entries of \<^verbatim>\<open>results\<close>
  whose sub-mapping is non-empty, each with its sub-mapping as stored (whether or not an id
  in it is null); it never returns an org entry with an empty sub-mapping.
\<close>

theorem get_mapped_results_nonempty:
  assumes "wf_KeyResults r"
  shows "(map_of (get_mapped_results r) org = Some sub \<longleftrightarrow>
            map_of (results r) org = Some sub \<and> sub \<noteq> []) \<and>
         (\<forall>(k, v) \<in> set (get_mapped_results r). v \<noteq> [])"
proof -
  from assms have w: "wf_dict (results r)" by (simp add: wf_KeyResults_def wf_nested_def)
  have "\<forall>(k, v) \<in> set (get_mapped_results r). v \<noteq> []"
    by (auto simp: get_mapped_results_def)
  with get_mapped_results_wf [OF w, of org sub] show ?thesis by simp
qed

theorem get_mapped_results_nonempty_witness:
  "wf_KeyResults \<lparr>results = [(1, [(''a'', Some 10)]), (2, []), (3, [(''c'', None)])], meta = []\<rparr> \<and>
   get_mapped_results
     \<lparr>results = [(1, [(''a'', Some 10)]), (2, []), (3, [(''c'', None)])], meta = []\<rparr> =
     [(1, [(''a'', Some 10)]), (3, [(''c'', None)])] \<and>
   map_of (get_mapped_results
     \<lparr>results = [(1, [(''a'', Some 10)]), (2, []), (3, [(''c'', None)])], meta = []\<rparr>) 2 = None"
proof -
  have w: "wf_KeyResults
      \<lparr>results = [(1, [(''a'', Some 10)]), (2, []), (3, [(''c'', None)])], meta = []\<rparr>"
    by (simp add: wf_KeyResults_def wf_nested_def wf_dict_def)
  show ?thesis
    using w get_mapped_results_nonempty [OF w, of 2 "[]"]
    by (simp add: get_mapped_results_def)
qed

subsection \<open>KeyResults: get-unmapped-keys\<close>

lemma fst_dd_getitem:
  "fst (dd_getitem dflt d k) = (case map_of d k of None \<Rightarrow> dflt | Some v \<Rightarrow> v)"
  by (simp add: dd_getitem_def split: option.split)

lemma map_of_snd_dd_getitem:
  "map_of (snd (dd_getitem dflt d k)) k' =
     (if k' = k \<and> map_of d k = None then Some dflt else map_of d k')"
  by (auto simp: dd_getitem_def map_add_def split: option.split)

lemma fst_dd_getitem_vivified:
  "fst (dd_getitem dflt (snd (dd_getitem dflt d k)) k') = fst (dd_getitem dflt d k')"
  unfolding fst_dd_getitem map_of_snd_dd_getitem by (simp split: option.split)

lemma in_mapping_set_add:
  "in_mapping (dd_modify [] unm org (\<lambda>strs. set_add strs x)) org' s \<longleftrightarrow>
     in_mapping unm org' s \<or> (org' = org \<and> s = x)"
  by (auto simp: in_mapping_def map_of_dd_modify set_add_def split: option.splits)

lemma unmapped_strings_Cons:
  "unmapped_strings org (s # ss) (res, unm) =
     unmapped_strings org ss
       (snd (dd_getitem [] res org),
        if \<not> py_truthy (dict_get (fst (dd_getitem [] res org)) s)
        then dd_modify [] unm org (\<lambda>strs. set_add strs s) else unm)"
  by (simp add: case_prod_beta)

lemma unmapped_strings_results:
  "map_of (fst (unmapped_strings org ss (res, unm))) k =
     (if ss \<noteq> [] \<and> k = org \<and> map_of res org = None then Some [] else map_of res k)"
proof (induction ss arbitrary: res unm)
  case Nil
  then show ?case by simp
next
  case (Cons s ss)
  show ?case
    unfolding unmapped_strings_Cons Cons.IH map_of_snd_dd_getitem by simp
qed

lemma unmapped_strings_unmapped:
  "in_mapping (snd (unmapped_strings org ss (res, unm))) org' s \<longleftrightarrow>
     in_mapping unm org' s \<or>
     (org' = org \<and> s \<in> set ss \<and> \<not> py_truthy (dict_get (fst (dd_getitem [] res org)) s))"
proof (induction ss arbitrary: res unm)
  case Nil
  then show ?case by simp
next
  case (Cons x ss)
  show ?case
    unfolding unmapped_strings_Cons Cons.IH fst_dd_getitem_vivified
    by (auto simp: in_mapping_set_add)
qed

lemma fst_dd_getitem_cong:
  "map_of d k = map_of d' k \<Longrightarrow> fst (dd_getitem dflt d k) = fst (dd_getitem dflt d' k)"
  by (simp add: fst_dd_getitem)

lemma unmapped_strings_sub:
  "fst (dd_getitem [] (fst (unmapped_strings org ss (res, unm))) k) = fst (dd_getitem [] res k)"
  unfolding fst_dd_getitem unmapped_strings_results by (simp split: option.split)

lemma unmapped_fold_Cons:
  "fold (\<lambda>(org, strings) st. unmapped_strings org strings st) ((org, ss) # items) (res, unm) =
   fold (\<lambda>(org, strings) st. unmapped_strings org strings st) items
     (fst (unmapped_strings org ss (res, unm)), snd (unmapped_strings org ss (res, unm)))"
  by simp

lemma unmapped_fold_results:
  "map_of (fst (fold (\<lambda>(org, strings) st. unmapped_strings org strings st) items (res, unm))) k =
     (if map_of res k = None \<and> (\<exists>ss. (k, ss) \<in> set items \<and> ss \<noteq> []) then Some []
      else map_of res k)"
proof (induction items arbitrary: res unm)
  case Nil
  then show ?case by simp
next
  case (Cons p items)
  obtain org ss where p: "p = (org, ss)" by (cases p)
  show ?case
    unfolding p unmapped_fold_Cons Cons.IH unmapped_strings_results by auto
qed

lemma unmapped_fold_unmapped:
  "in_mapping (snd (fold (\<lambda>(org, strings) st. unmapped_strings org strings st) items (res, unm)))
       org s \<longleftrightarrow>
     in_mapping unm org s \<or>
     (\<exists>ss. (org, ss) \<in> set items \<and> s \<in> set ss \<and>
        \<not> py_truthy (dict_get (fst (dd_getitem [] res org)) s))"
proof (induction items arbitrary: res unm)
  case Nil
  then show ?case by simp
next
  case (Cons p items)
  obtain k ss where p: "p = (k, ss)" by (cases p)
  show ?case
    unfolding p unmapped_fold_Cons Cons.IH unmapped_strings_unmapped unmapped_strings_sub
    by auto
qed

lemma get_unmapped_keys_eq:
  "\<exists>n. get_unmapped_keys r c =
     Inr (\<lparr>mapping = snd (fold (\<lambda>(org, strings) st. unmapped_strings org strings st)
                             (mapping c) (results r, [])),
           size_kc = n\<rparr>,
          r\<lparr>results := fst (fold (\<lambda>(org, strings) st. unmapped_strings org strings st)
                             (mapping c) (results r, []))\<rparr>)"
proof -
  let ?st = "fold (\<lambda>(org, strings) st. unmapped_strings org strings st) (mapping c) (results r, [])"
  obtain n where "KeyCollection_init (snd ?st) = Inr \<lparr>mapping = snd ?st, size_kc = n\<rparr>"
    using KeyCollection_init_total [of "snd ?st"] by blast
  then show ?thesis
    by (simp add: get_unmapped_keys_def case_prod_beta)
qed

lemma in_mapping_Nil: "\<not> in_mapping [] org s"
  by (simp add: in_mapping_def)

text \<open>
  Claim C3. For every KeyResults \<open>r\<close> and every KeyCollection \<open>c\<close>, \<^verbatim>\<open>r.get_unmapped_keys(c)\<close>
  returns a collection that holds a key \<open>(org, s)\<close> if and only if \<open>(org, s)\<close> is a key of \<open>c\<close>
  and \<^verbatim>\<open>r.results[org].get(s)\<close> is falsy: a key never recorded and a key recorded with
  \<^verbatim>\<open>None\<close> or \<^verbatim>\<open>0\<close> are both unmapped.
\<close>

theorem get_unmapped_keys_complement:
  assumes "wf_mapping (mapping c)"
  shows "\<exists>kc r'. get_unmapped_keys r c = Inr (kc, r') \<and>
           (\<forall>org s. in_collection kc org s \<longleftrightarrow>
              in_collection c org s \<and>
              \<not> py_truthy (dict_get (fst (dd_getitem [] (results r) org)) s))"
proof -
  from assms have w: "wf_dict (mapping c)" by (simp add: wf_mapping_def)
  obtain n where e: "get_unmapped_keys r c =
     Inr (\<lparr>mapping = snd (fold (\<lambda>(org, strings) st. unmapped_strings org strings st)
                             (mapping c) (results r, [])),
           size_kc = n\<rparr>,
          r\<lparr>results := fst (fold (\<lambda>(org, strings) st. unmapped_strings org strings st)
                             (mapping c) (results r, []))\<rparr>)"
    using get_unmapped_keys_eq [of r c] by blast
  show ?thesis
    unfolding e
    by (auto simp: in_collection_def unmapped_fold_unmapped in_mapping_Nil in_mapping_wf [OF w])
qed

theorem get_unmapped_keys_complement_witness:
  "wf_mapping (mapping \<lparr>mapping = [(1, [''a'', ''b'', ''z'', ''n'']), (2, [''e''])], size_kc = 5\<rparr>) \<and>
   get_unmapped_keys
     (add_key_result
       \<lparr>results = [(1, [(''z'', Some 0), (''n'', None)])], meta = []\<rparr>
       (KeyResult 1 ''a'' (Some 10)) (Some CACHE_HIT) None)
     \<lparr>mapping = [(1, [''a'', ''b'', ''z'', ''n'']), (2, [''e''])], size_kc = 5\<rparr> =
   Inr (\<lparr>mapping = [(1, [''b'', ''z'', ''n'']), (2, [''e''])], size_kc = 4\<rparr>,
        \<lparr>results = [(1, [(''z'', Some 0), (''n'', None), (''a'', Some 10)]), (2, [])],
         meta = [(1, [(''a'', Metadata (Some 10) CACHE_HIT None)])]\<rparr>)"
proof -
  have w: "wf_mapping
      (mapping \<lparr>mapping = [(1, [''a'', ''b'', ''z'', ''n'']), (2, [''e''])], size_kc = 5\<rparr>)"
    by (simp add: wf_mapping_def wf_dict_def)
  show ?thesis
    using w get_unmapped_keys_complement [OF w,
        of "add_key_result \<lparr>results = [(1, [(''z'', Some 0), (''n'', None)])], meta = []\<rparr>
              (KeyResult 1 ''a'' (Some 10)) (Some CACHE_HIT) None"]
    by (simp add: get_unmapped_keys_def add_key_result_def dd_getitem_def dd_modify_def
        dict_set_def dict_update_def set_add_def py_truthy_def dict_get_def
        KeyCollection_init_def)
qed

text \<open>
  Claim C10 as stated says that \<^verbatim>\<open>get_unmapped_keys\<close> inserts an empty sub-mapping for every
  org id of the input collection that \<^verbatim>\<open>self.results\<close> lacks. The read
  \<^verbatim>\<open>self.results[org_id]\<close> sits inside the loop over the strings of the org, so an org id
  mapped to the empty set is never read and nothing is inserted for it.
\<close>

theorem get_unmapped_keys_empty_set_counterexample:
  "get_unmapped_keys \<lparr>results = [], meta = []\<rparr> \<lparr>mapping = [(1, [])], size_kc = 0\<rparr> =
     Inr (\<lparr>mapping = [], size_kc = 0\<rparr>, \<lparr>results = [], meta = []\<rparr>)"
  by (simp add: get_unmapped_keys_def KeyCollection_init_def)

text \<open>
  Claim C10, amended. \<^verbatim>\<open>get_unmapped_keys\<close> changes its receiver: for every org id that the
  input collection maps to a non-empty set and that \<^verbatim>\<open>self.results\<close> lacks, an empty
  sub-mapping is inserted into \<^verbatim>\<open>self.results\<close>. Every other org entry of \<^verbatim>\<open>results\<close>, with
  all its ids, and the whole of \<^verbatim>\<open>meta\<close> are as before.
\<close>

theorem get_unmapped_keys_vivifies:
  "\<exists>kc r'. get_unmapped_keys r c = Inr (kc, r') \<and> meta r' = meta r \<and>
     (\<forall>org. map_of (results r') org =
        (if map_of (results r) org = None \<and> (\<exists>ss. (org, ss) \<in> set (mapping c) \<and> ss \<noteq> [])
         then Some [] else map_of (results r) org))"
proof -
  obtain n where e: "get_unmapped_keys r c =
     Inr (\<lparr>mapping = snd (fold (\<lambda>(org, strings) st. unmapped_strings org strings st)
                             (mapping c) (results r, [])),
           size_kc = n\<rparr>,
          r\<lparr>results := fst (fold (\<lambda>(org, strings) st. unmapped_strings org strings st)
                             (mapping c) (results r, []))\<rparr>)"
    using get_unmapped_keys_eq [of r c] by blast
  show ?thesis
    unfolding e by (simp add: unmapped_fold_results)
qed

theorem get_unmapped_keys_vivifies_witness:
  "get_unmapped_keys
     \<lparr>results = [(1, [(''a'', Some 10)])], meta = [(1, [(''a'', Metadata (Some 10) DB_READ None)])]\<rparr>
     \<lparr>mapping = [(1, [''a'', ''b'']), (2, [''e'']), (3, [])], size_kc = 3\<rparr> =
   Inr (\<lparr>mapping = [(1, [''b'']), (2, [''e''])], size_kc = 2\<rparr>,
        \<lparr>results = [(1, [(''a'', Some 10)]), (2, [])],
         meta = [(1, [(''a'', Metadata (Some 10) DB_READ None)])]\<rparr>)"
  using get_unmapped_keys_vivifies
    [of "\<lparr>results = [(1, [(''a'', Some 10)])],
          meta = [(1, [(''a'', Metadata (Some 10) DB_READ None)])]\<rparr>"
        "\<lparr>mapping = [(1, [''a'', ''b'']), (2, [''e'']), (3, [])], size_kc = 3\<rparr>"]
  by (simp add: get_unmapped_keys_def dd_getitem_def dd_modify_def
      dict_set_def set_add_def py_truthy_def dict_get_def KeyCollection_init_def)

subsection \<open>Flat export of the resolved ids\<close>

lemma split_at_sep_inj:
  assumes "sep \<notin> set a" and "sep \<notin> set b" and "a @ sep # s = b @ sep # t"
  shows "a = b \<and> s = t"
proof -
  have "takeWhile (\<lambda>c. c \<noteq> sep) (a @ sep # s) = takeWhile (\<lambda>c. c \<noteq> sep) (b @ sep # t)"
    by (simp only: assms(3))
  then have "a = b" by (simp only: takeWhile_sep [OF assms(1)] takeWhile_sep [OF assms(2)])
  with assms(3) show ?thesis by simp
qed

lemma py_str_inj: "py_str i = py_str j \<Longrightarrow> i = j"
proof -
  assume "py_str i = py_str j"
  then have "py_int (py_str i) = py_int (py_str j)" by simp
  then show "i = j" by (simp only: py_int_py_str sum.inject)
qed

lemma fmt_key_inj: "fmt_key org s = fmt_key org' s' \<Longrightarrow> org = org' \<and> s = s'"
  using split_at_sep_inj [OF py_str_no_colon py_str_no_colon, of org s org' s'] py_str_inj
  by (auto simp: fmt_key_def)

lemma fmt_use_case_key_inj:
  "CHR '':'' \<notin> set uc \<Longrightarrow> CHR '':'' \<notin> set uc' \<Longrightarrow>
   fmt_use_case_key uc s = fmt_use_case_key uc' s' \<Longrightarrow> uc = uc' \<and> s = s'"
  using split_at_sep_inj [of "CHR '':''" uc uc' s s']
  by (simp add: fmt_use_case_key_def)

lemma fold_map_of_sound:
  assumes step: "\<And>x acc. map_of (step x acc) k = Some v \<Longrightarrow> map_of acc k = Some v \<or> Wr x"
  shows "map_of (fold step xs acc) k = Some v \<Longrightarrow> map_of acc k = Some v \<or> (\<exists>x\<in>set xs. Wr x)"
proof (induction xs arbitrary: acc)
  case Nil
  then show ?case by simp
next
  case (Cons x xs)
  from Cons.prems have "map_of (fold step xs (step x acc)) k = Some v" by simp
  from Cons.IH [OF this] step [of x acc] show ?case by auto
qed

lemma fold_map_of_keep:
  assumes keep: "\<And>x acc. map_of acc k \<noteq> None \<Longrightarrow> map_of (step x acc) k \<noteq> None"
  shows "map_of acc k \<noteq> None \<Longrightarrow> map_of (fold step xs acc) k \<noteq> None"
proof (induction xs arbitrary: acc)
  case Nil
  then show ?case by simp
next
  case (Cons x xs)
  from keep [OF Cons.prems, of x] have "map_of (step x acc) k \<noteq> None" .
  from Cons.IH [OF this] show ?case by simp
qed

lemma fold_map_of_complete:
  assumes wr: "\<And>x acc. Wr x \<Longrightarrow> map_of (step x acc) k \<noteq> None"
    and keep: "\<And>x acc. map_of acc k \<noteq> None \<Longrightarrow> map_of (step x acc) k \<noteq> None"
  shows "x \<in> set xs \<Longrightarrow> Wr x \<Longrightarrow> map_of (fold step xs acc) k \<noteq> None"
proof (induction xs arbitrary: acc)
  case Nil
  then show ?case by simp
next
  case (Cons y xs)
  show ?case
  proof (cases "x = y")
    case True
    with Cons.prems wr [of x acc] have "map_of (step y acc) k \<noteq> None" by simp
    from fold_map_of_keep [of k step, OF keep this] show ?thesis by simp
  next
    case False
    with Cons.prems have "x \<in> set xs" by simp
    from Cons.IH [OF this Cons.prems(2)] show ?thesis by simp
  qed
qed

lemma fold_wf_dict:
  assumes step: "\<And>x acc. wf_dict acc \<Longrightarrow> wf_dict (step x acc)"
  shows "wf_dict acc \<Longrightarrow> wf_dict (fold step xs acc)"
proof (induction xs arbitrary: acc)
  case Nil
  then show ?case by simp
next
  case (Cons x xs)
  from Cons.IH [OF step [OF Cons.prems]] show ?case by simp
qed

lemma wf_dict_set: "wf_dict d \<Longrightarrow> wf_dict (dict_set d k v)"
  by (simp add: wf_dict_def dict_set_def distinct_update)

lemma wf_dict_Nil: "wf_dict []"
  by (simp add: wf_dict_def)

lemma cache_strings_sound:
  "map_of (cache_strings org sub acc) k = Some v \<Longrightarrow>
   map_of acc k = Some v \<or> (\<exists>s. (s, Some v) \<in> set sub \<and> k = fmt_key org s)"
proof -
  assume a: "map_of (cache_strings org sub acc) k = Some v"
  have "map_of acc k = Some v \<or>
      (\<exists>x\<in>set sub. snd x = Some v \<and> k = fmt_key org (fst x))"
    using a unfolding cache_strings_def
    by (rule fold_map_of_sound [rotated])
      (auto simp: map_of_dict_set split: option.splits if_splits)
  then show ?thesis by force
qed

lemma cache_strings_keep:
  "map_of acc k \<noteq> None \<Longrightarrow> map_of (cache_strings org sub acc) k \<noteq> None"
  unfolding cache_strings_def
  by (rule fold_map_of_keep) (auto simp: map_of_dict_set split: option.splits)

lemma cache_strings_complete:
  "(s, Some v) \<in> set sub \<Longrightarrow> map_of (cache_strings org sub acc) (fmt_key org s) \<noteq> None"
  unfolding cache_strings_def
  by (rule fold_map_of_complete [where Wr = "\<lambda>x. fst x = s \<and> snd x = Some v" and x = "(s, Some v)"])
    (auto simp: map_of_dict_set split: option.splits)

lemma cache_strings_wf: "wf_dict acc \<Longrightarrow> wf_dict (cache_strings org sub acc)"
  unfolding cache_strings_def
  by (rule fold_wf_dict) (auto simp: wf_dict_set split: option.splits)

lemma flat_sound:
  "map_of (get_mapped_key_strings_to_ints r) k = Some v \<Longrightarrow>
   \<exists>org sub s. (org, sub) \<in> set (results r) \<and> (s, Some v) \<in> set sub \<and> k = fmt_key org s"
proof -
  assume a: "map_of (get_mapped_key_strings_to_ints r) k = Some v"
  have "map_of [] k = Some v \<or>
      (\<exists>x\<in>set (results r). \<exists>s. (s, Some v) \<in> set (snd x) \<and> k = fmt_key (fst x) s)"
    using a unfolding get_mapped_key_strings_to_ints_def
    by (rule fold_map_of_sound [rotated]) (use cache_strings_sound in fastforce)
  then show ?thesis by force
qed

lemma flat_complete:
  "(org, sub) \<in> set (results r) \<Longrightarrow> (s, Some v) \<in> set sub \<Longrightarrow>
   map_of (get_mapped_key_strings_to_ints r) (fmt_key org s) \<noteq> None"
  unfolding get_mapped_key_strings_to_ints_def
  apply (rule fold_map_of_complete
      [where Wr = "\<lambda>x. fst x = org \<and> (s, Some v) \<in> set (snd x)" and x = "(org, sub)"])
  subgoal for x acc
    using cache_strings_complete [of s v "snd x" org acc] by (simp add: case_prod_beta)
  subgoal for x acc
    by (simp add: case_prod_beta cache_strings_keep del: not_None_eq)
  subgoal by simp
  subgoal by simp
  done

lemma flat_wf: "wf_dict (get_mapped_key_strings_to_ints r)"
  unfolding get_mapped_key_strings_to_ints_def
  by (rule fold_wf_dict) (auto simp: cache_strings_wf wf_dict_Nil)

lemma lookup2_wf_iff:
  "wf_nested d \<Longrightarrow>
   lookup2 d org s = Some v \<longleftrightarrow> (\<exists>sub. (org, sub) \<in> set d \<and> (s, v) \<in> set sub)"
proof -
  assume w: "wf_nested d"
  then have d: "wf_dict d" and subs: "\<And>k sub. (k, sub) \<in> set d \<Longrightarrow> wf_dict sub"
    by (auto simp: wf_nested_def list_all_iff)
  show ?thesis
  proof
    assume "lookup2 d org s = Some v"
    then obtain sub where "map_of d org = Some sub" "map_of sub s = Some v"
      by (auto simp: lookup2_def split: option.splits)
    then show "\<exists>sub. (org, sub) \<in> set d \<and> (s, v) \<in> set sub"
      by (auto dest: map_of_SomeD)
  next
    assume "\<exists>sub. (org, sub) \<in> set d \<and> (s, v) \<in> set sub"
    then obtain sub where m: "(org, sub) \<in> set d" "(s, v) \<in> set sub" by blast
    from map_of_wf_entry [OF d m(1)] map_of_wf_entry [OF subs [OF m(1)] m(2)]
    show "lookup2 d org s = Some v" by (simp add: lookup2_def)
  qed
qed

lemma flat_iff:
  assumes "wf_nested (results r)"
  shows "map_of (get_mapped_key_strings_to_ints r) k = Some v \<longleftrightarrow>
           (\<exists>org s. k = fmt_key org s \<and> lookup2 (results r) org s = Some (Some v))"
proof
  assume "map_of (get_mapped_key_strings_to_ints r) k = Some v"
  from flat_sound [OF this] show "\<exists>org s. k = fmt_key org s \<and> lookup2 (results r) org s = Some (Some v)"
    unfolding lookup2_wf_iff [OF assms] by blast
next
  assume "\<exists>org s. k = fmt_key org s \<and> lookup2 (results r) org s = Some (Some v)"
  then obtain org s where k: "k = fmt_key org s" and l: "lookup2 (results r) org s = Some (Some v)"
    by blast
  from l obtain sub where m: "(org, sub) \<in> set (results r)" "(s, Some v) \<in> set sub"
    unfolding lookup2_wf_iff [OF assms] by blast
  from flat_complete [OF m] obtain v' where v': "map_of (get_mapped_key_strings_to_ints r) k = Some v'"
    unfolding k by blast
  from flat_sound [OF v'] obtain org' sub' s' where
    m': "(org', sub') \<in> set (results r)" "(s', Some v') \<in> set sub'" "k = fmt_key org' s'"
    by blast
  from m'(3) k have "org' = org \<and> s' = s" using fmt_key_inj [of org' s' org s] by simp
  with m'(1,2) have "lookup2 (results r) org s = Some (Some v')"
    unfolding lookup2_wf_iff [OF assms] by blast
  with l have "v' = v" by simp
  with v' show "map_of (get_mapped_key_strings_to_ints r) k = Some v" by simp
qed


lemma prefix_use_case_sound:
  "map_of (prefix_use_case uc fl acc) k = Some v \<Longrightarrow>
   map_of acc k = Some v \<or> (\<exists>s. (s, v) \<in> set fl \<and> k = fmt_use_case_key uc s)"
proof -
  assume a: "map_of (prefix_use_case uc fl acc) k = Some v"
  have "map_of acc k = Some v \<or> (\<exists>x\<in>set fl. snd x = v \<and> k = fmt_use_case_key uc (fst x))"
    using a unfolding prefix_use_case_def
    by (rule fold_map_of_sound [rotated]) (auto simp: map_of_dict_set split: if_splits)
  then show ?thesis by force
qed

lemma prefix_use_case_keep:
  "map_of acc k \<noteq> None \<Longrightarrow> map_of (prefix_use_case uc fl acc) k \<noteq> None"
  unfolding prefix_use_case_def
  by (rule fold_map_of_keep) (auto simp: map_of_dict_set)

lemma prefix_use_case_complete:
  "(s, v) \<in> set fl \<Longrightarrow> map_of (prefix_use_case uc fl acc) (fmt_use_case_key uc s) \<noteq> None"
  unfolding prefix_use_case_def
  by (rule fold_map_of_complete [where Wr = "\<lambda>x. fst x = s" and x = "(s, v)"])
    (auto simp: map_of_dict_set)

lemma use_case_flat_sound:
  "map_of (get_mapped_strings_to_ints u) k = Some v \<Longrightarrow>
   \<exists>uc kr s. (uc, kr) \<in> set (results_uc u) \<and>
     (s, v) \<in> set (get_mapped_key_strings_to_ints kr) \<and> k = fmt_use_case_key uc s"
proof -
  assume a: "map_of (get_mapped_strings_to_ints u) k = Some v"
  have "map_of [] k = Some v \<or>
      (\<exists>x\<in>set (results_uc u). \<exists>s. (s, v) \<in> set (get_mapped_key_strings_to_ints (snd x)) \<and>
          k = fmt_use_case_key (fst x) s)"
    using a unfolding get_mapped_strings_to_ints_def
    by (rule fold_map_of_sound [rotated]) (use prefix_use_case_sound in fastforce)
  then show ?thesis by force
qed

lemma use_case_flat_complete:
  "(uc, kr) \<in> set (results_uc u) \<Longrightarrow> (s, v) \<in> set (get_mapped_key_strings_to_ints kr) \<Longrightarrow>
   map_of (get_mapped_strings_to_ints u) (fmt_use_case_key uc s) \<noteq> None"
  unfolding get_mapped_strings_to_ints_def
  apply (rule fold_map_of_complete
      [where Wr = "\<lambda>x. fst x = uc \<and> (s, v) \<in> set (get_mapped_key_strings_to_ints (snd x))"
         and x = "(uc, kr)"])
  subgoal for x acc
    using prefix_use_case_complete [of s v "get_mapped_key_strings_to_ints (snd x)" uc acc]
    by (simp add: case_prod_beta)
  subgoal for x acc
    by (simp add: case_prod_beta prefix_use_case_keep del: not_None_eq)
  subgoal by simp
  subgoal by simp
  done

lemma flat_entry_iff:
  assumes "wf_KeyResults kr"
  shows "(k, v) \<in> set (get_mapped_key_strings_to_ints kr) \<longleftrightarrow>
           (\<exists>org s. k = fmt_key org s \<and> lookup2 (results kr) org s = Some (Some v))"
proof -
  from assms have w: "wf_nested (results kr)" by (simp add: wf_KeyResults_def)
  have "(k, v) \<in> set (get_mapped_key_strings_to_ints kr) \<longleftrightarrow>
      map_of (get_mapped_key_strings_to_ints kr) k = Some v"
    using flat_wf [of kr] by (simp add: wf_dict_def)
  then show ?thesis by (simp only: flat_iff [OF w])
qed

lemma wf_use_case_entry:
  assumes "wf_UseCaseKeyResults u"
  shows "(uc, kr) \<in> set (results_uc u) \<longleftrightarrow> map_of (results_uc u) uc = Some kr"
    and "(uc, kr) \<in> set (results_uc u) \<Longrightarrow> wf_KeyResults kr"
  using assms by (auto simp: wf_UseCaseKeyResults_def wf_dict_def list_all_iff)

lemma use_case_flat_sound_wf:
  assumes "wf_UseCaseKeyResults u" and "map_of (get_mapped_strings_to_ints u) k = Some v"
  shows "\<exists>uc kr org s. map_of (results_uc u) uc = Some kr \<and>
           k = fmt_use_case_key uc (fmt_key org s) \<and>
           lookup2 (results kr) org s = Some (Some v)"
proof -
  from use_case_flat_sound [OF assms(2)] obtain uc kr k' where
    m: "(uc, kr) \<in> set (results_uc u)" "(k', v) \<in> set (get_mapped_key_strings_to_ints kr)"
      "k = fmt_use_case_key uc k'"
    by blast
  from m(2) obtain org s where "k' = fmt_key org s" "lookup2 (results kr) org s = Some (Some v)"
    unfolding flat_entry_iff [OF wf_use_case_entry(2) [OF assms(1) m(1)]] by blast
  with m(1,3) show ?thesis
    unfolding wf_use_case_entry(1) [OF assms(1)] by blast
qed

lemma use_case_flat_complete_wf:
  assumes "wf_UseCaseKeyResults u" and "map_of (results_uc u) uc = Some kr"
    and "lookup2 (results kr) org s = Some (Some i)"
  shows "map_of (get_mapped_strings_to_ints u) (fmt_use_case_key uc (fmt_key org s)) \<noteq> None"
proof -
  from assms(2) have m: "(uc, kr) \<in> set (results_uc u)"
    unfolding wf_use_case_entry(1) [OF assms(1)] .
  from assms(3) have "(fmt_key org s, i) \<in> set (get_mapped_key_strings_to_ints kr)"
    unfolding flat_entry_iff [OF wf_use_case_entry(2) [OF assms(1) m]] by blast
  from use_case_flat_complete [OF m this] show ?thesis .
qed

lemma use_case_flat_exact:
  assumes "wf_UseCaseKeyResults u" and "\<forall>uc \<in> fst ` set (results_uc u). CHR '':'' \<notin> set uc"
    and "map_of (results_uc u) uc = Some kr"
    and "lookup2 (results kr) org s = Some (Some i)"
  shows "map_of (get_mapped_strings_to_ints u) (fmt_use_case_key uc (fmt_key org s)) = Some i"
proof -
  from use_case_flat_complete_wf [OF assms(1,3,4)] obtain v where
    v: "map_of (get_mapped_strings_to_ints u) (fmt_use_case_key uc (fmt_key org s)) = Some v"
    by blast
  from use_case_flat_sound_wf [OF assms(1) v] obtain uc' kr' org' s' where
    m: "map_of (results_uc u) uc' = Some kr'"
      "fmt_use_case_key uc (fmt_key org s) = fmt_use_case_key uc' (fmt_key org' s')"
      "lookup2 (results kr') org' s' = Some (Some v)"
    by blast
  have "CHR '':'' \<notin> set uc" "CHR '':'' \<notin> set uc'"
    using assms(2,3) m(1) by (auto dest!: map_of_SomeD simp: image_iff)
  from fmt_use_case_key_inj [OF this m(2)] have e: "uc = uc'" "fmt_key org s = fmt_key org' s'"
    by simp_all
  from fmt_key_inj [OF e(2)] e(1) m(1,3) assms(3,4) have "v = i" by simp
  with v show ?thesis by simp
qed

text \<open>
  Claim C7 as stated says that the flat mapping holds exactly the entries with a non-null id,
  each key mapped to the id of its entry, and that the use-case variant does the same with the
  use case prefixed. For the use-case variant this fails when a use case id contains a colon:
  the entry \<open>(''a'', 1, ''2:x'')\<close> with id \<open>5\<close> and the entry \<open>(''a:1'', 2, ''x'')\<close> with id \<open>6\<close>
  both render to \<^verbatim>\<open>"a:1:2:x"\<close>, and the dict comprehension keeps the id written last, so the
  key of the first entry is mapped to \<open>6\<close>.
\<close>

theorem mapped_strings_to_ints_collision_counterexample:
  "lookup2 (results \<lparr>results = [(1, [(''2:x'', Some 5)])], meta = []\<rparr>) 1 ''2:x'' = Some (Some 5) \<and>
   fmt_use_case_key ''a'' (fmt_key 1 ''2:x'') = ''a:1:2:x'' \<and>
   get_mapped_strings_to_ints
     \<lparr>results_uc = [(''a'', \<lparr>results = [(1, [(''2:x'', Some 5)])], meta = []\<rparr>),
                    (''a:1'', \<lparr>results = [(2, [(''x'', Some 6)])], meta = []\<rparr>)]\<rparr> =
     [(''a:1:2:x'', 6)]"
  by (simp add: get_mapped_key_strings_to_ints_def get_mapped_strings_to_ints_def
      cache_strings_def prefix_use_case_def dict_set_def fmt_key_def fmt_use_case_key_def
      py_str_def str_nat.simps digit_char_def lookup2_def)

text \<open>
  Claim C7, amended. \<^verbatim>\<open>get_mapped_key_strings_to_ints()\<close> returns a flat mapping that holds
  exactly the entries of \<^verbatim>\<open>results\<close> with a non-null id: \<open>k\<close> is mapped to \<open>v\<close> if and only if
  \<open>k\<close> is \<^verbatim>\<open>"{org_id}:{string}"\<close> for an entry \<open>(org_id, string)\<close> whose id is \<open>v\<close>. The
  use-case variant \<^verbatim>\<open>get_mapped_strings_to_ints()\<close> prefixes the use case: each of its keys is
  \<^verbatim>\<open>"{use_case_id}:{org_id}:{string}"\<close> for an entry with a non-null id and is mapped to the
  id of such an entry, and the key of every entry with a non-null id is present. When no use
  case id contains a colon, the variant holds exactly the entries with a non-null id: \<open>k\<close> is
  mapped to \<open>v\<close> if and only if \<open>k\<close> is the prefixed key of an entry whose id is \<open>v\<close>.
\<close>

theorem mapped_strings_to_ints_export:
  assumes "wf_KeyResults r" and "wf_UseCaseKeyResults u"
  shows "(map_of (get_mapped_key_strings_to_ints r) k = Some v \<longleftrightarrow>
            (\<exists>org s. k = fmt_key org s \<and> lookup2 (results r) org s = Some (Some v))) \<and>
         (map_of (get_mapped_strings_to_ints u) k = Some v \<longrightarrow>
            (\<exists>uc kr org s. map_of (results_uc u) uc = Some kr \<and>
               k = fmt_use_case_key uc (fmt_key org s) \<and>
               lookup2 (results kr) org s = Some (Some v))) \<and>
         (\<forall>uc kr org s i.
            map_of (results_uc u) uc = Some kr \<and> lookup2 (results kr) org s = Some (Some i) \<longrightarrow>
            map_of (get_mapped_strings_to_ints u) (fmt_use_case_key uc (fmt_key org s)) \<noteq> None) \<and>
         ((\<forall>uc \<in> fst ` set (results_uc u). CHR '':'' \<notin> set uc) \<longrightarrow>
          (map_of (get_mapped_strings_to_ints u) k = Some v \<longleftrightarrow>
             (\<exists>uc kr org s. map_of (results_uc u) uc = Some kr \<and>
                k = fmt_use_case_key uc (fmt_key org s) \<and>
                lookup2 (results kr) org s = Some (Some v))))"
proof -
  from assms(1) have w: "wf_nested (results r)" by (simp add: wf_KeyResults_def)
  have flat: "map_of (get_mapped_key_strings_to_ints r) k = Some v \<longleftrightarrow>
            (\<exists>org s. k = fmt_key org s \<and> lookup2 (results r) org s = Some (Some v))"
    by (rule flat_iff [OF w])
  have sound: "map_of (get_mapped_strings_to_ints u) k = Some v \<longrightarrow>
            (\<exists>uc kr org s. map_of (results_uc u) uc = Some kr \<and>
               k = fmt_use_case_key uc (fmt_key org s) \<and>
               lookup2 (results kr) org s = Some (Some v))"
    using use_case_flat_sound_wf [OF assms(2), of k v] by blast
  have present: "\<forall>uc kr org s i.
            map_of (results_uc u) uc = Some kr \<and> lookup2 (results kr) org s = Some (Some i) \<longrightarrow>
            map_of (get_mapped_strings_to_ints u) (fmt_use_case_key uc (fmt_key org s)) \<noteq> None"
    using use_case_flat_complete_wf [OF assms(2)] by blast
  have exact: "(\<forall>uc \<in> fst ` set (results_uc u). CHR '':'' \<notin> set uc) \<longrightarrow>
          (map_of (get_mapped_strings_to_ints u) k = Some v \<longleftrightarrow>
             (\<exists>uc kr org s. map_of (results_uc u) uc = Some kr \<and>
                k = fmt_use_case_key uc (fmt_key org s) \<and>
                lookup2 (results kr) org s = Some (Some v)))"
  proof (intro impI iffI)
    assume "map_of (get_mapped_strings_to_ints u) k = Some v"
    with sound show "\<exists>uc kr org s. map_of (results_uc u) uc = Some kr \<and>
                k = fmt_use_case_key uc (fmt_key org s) \<and>
                lookup2 (results kr) org s = Some (Some v)"
      by (rule mp)
  next
    assume c: "\<forall>uc \<in> fst ` set (results_uc u). CHR '':'' \<notin> set uc"
      and "\<exists>uc kr org s. map_of (results_uc u) uc = Some kr \<and>
                k = fmt_use_case_key uc (fmt_key org s) \<and>
                lookup2 (results kr) org s = Some (Some v)"
    then obtain uc kr org s where e: "map_of (results_uc u) uc = Some kr"
        "k = fmt_use_case_key uc (fmt_key org s)" "lookup2 (results kr) org s = Some (Some v)"
      by blast
    from use_case_flat_exact [OF assms(2) c e(1) e(3)]
    show "map_of (get_mapped_strings_to_ints u) k = Some v" by (simp only: e(2))
  qed
  show ?thesis by (rule conjI [OF flat conjI [OF sound conjI [OF present exact]]])
qed

theorem mapped_strings_to_ints_export_witness:
  "wf_KeyResults \<lparr>results = [(1, [(''a'', Some 10), (''b'', None)]), (2, [(''e'', Some 13)])],
                  meta = []\<rparr> \<and>
   wf_UseCaseKeyResults
     \<lparr>results_uc = [(''perf'', \<lparr>results = [(1, [(''x'', Some 5)])], meta = []\<rparr>),
                    (''spans'', \<lparr>results = [(1, [(''y'', Some 6)])], meta = []\<rparr>)]\<rparr> \<and>
   CHR '':'' \<notin> set ''perf'' \<and> CHR '':'' \<notin> set ''spans'' \<and>
   get_mapped_key_strings_to_ints
     \<lparr>results = [(1, [(''a'', Some 10), (''b'', None)]), (2, [(''e'', Some 13)])], meta = []\<rparr> =
     [(''1:a'', 10), (''2:e'', 13)] \<and>
   get_mapped_strings_to_ints
     \<lparr>results_uc = [(''perf'', \<lparr>results = [(1, [(''x'', Some 5)])], meta = []\<rparr>),
                    (''spans'', \<lparr>results = [(1, [(''y'', Some 6)])], meta = []\<rparr>)]\<rparr> =
     [(''perf:1:x'', 5), (''spans:1:y'', 6)]"
proof -
  have r: "wf_KeyResults
      \<lparr>results = [(1, [(''a'', Some 10), (''b'', None)]), (2, [(''e'', Some 13)])], meta = []\<rparr>"
    by (simp add: wf_KeyResults_def wf_nested_def wf_dict_def)
  have u: "wf_UseCaseKeyResults
     \<lparr>results_uc = [(''perf'', \<lparr>results = [(1, [(''x'', Some 5)])], meta = []\<rparr>),
                    (''spans'', \<lparr>results = [(1, [(''y'', Some 6)])], meta = []\<rparr>)]\<rparr>"
    by (simp add: wf_UseCaseKeyResults_def wf_KeyResults_def wf_nested_def wf_dict_def)
  show ?thesis
    using r u mapped_strings_to_ints_export [OF r u, of "''1:a''" 10]
    by (simp add: get_mapped_key_strings_to_ints_def get_mapped_strings_to_ints_def
        cache_strings_def prefix_use_case_def dict_set_def fmt_key_def fmt_use_case_key_def
        py_str_def str_nat.simps digit_char_def)
qed

subsection \<open>UseCaseKeyResults: merge\<close>

lemma merge_use_case_present:
  "uc \<in> fst ` set (results_uc a) \<union> fst ` set (results_uc b) \<Longrightarrow>
   \<exists>kr. merge_use_case a b uc = Inr kr \<and>
     Some kr = (case (map_of (results_uc a) uc, map_of (results_uc b) uc) of
                  (Some x, Some y) \<Rightarrow> Some (KeyResults_merge x y)
                | (Some x, None) \<Rightarrow> Some x
                | (None, Some y) \<Rightarrow> Some y
                | (None, None) \<Rightarrow> None)"
  using map_of_eq_None_iff [of "results_uc a" uc] map_of_eq_None_iff [of "results_uc b" uc]
  by (auto simp: merge_use_case_def split: option.splits)

lemma merge_loop_eq:
  "set ucs \<subseteq> fst ` set (results_uc a) \<union> fst ` set (results_uc b) \<Longrightarrow>
   \<exists>d. merge_loop a b ucs acc = Inr d \<and>
     (\<forall>uc. map_of d uc =
        (if uc \<in> set ucs
         then (case (map_of (results_uc a) uc, map_of (results_uc b) uc) of
                  (Some x, Some y) \<Rightarrow> Some (KeyResults_merge x y)
                | (Some x, None) \<Rightarrow> Some x
                | (None, Some y) \<Rightarrow> Some y
                | (None, None) \<Rightarrow> None)
         else map_of acc uc))"
proof (induction ucs arbitrary: acc)
  case Nil
  then show ?case by simp
next
  case (Cons uc ucs)
  from Cons.prems have in_keys: "uc \<in> fst ` set (results_uc a) \<union> fst ` set (results_uc b)"
    and rest: "set ucs \<subseteq> fst ` set (results_uc a) \<union> fst ` set (results_uc b)"
    by simp_all
  from merge_use_case_present [OF in_keys] obtain kr where
    kr: "merge_use_case a b uc = Inr kr"
      "Some kr = (case (map_of (results_uc a) uc, map_of (results_uc b) uc) of
                  (Some x, Some y) \<Rightarrow> Some (KeyResults_merge x y)
                | (Some x, None) \<Rightarrow> Some x
                | (None, Some y) \<Rightarrow> Some y
                | (None, None) \<Rightarrow> None)"
    by blast
  from Cons.IH [OF rest, of "dict_set acc uc kr"] obtain d where
    d: "merge_loop a b ucs (dict_set acc uc kr) = Inr d"
      "\<forall>uc'. map_of d uc' =
        (if uc' \<in> set ucs
         then (case (map_of (results_uc a) uc', map_of (results_uc b) uc') of
                  (Some x, Some y) \<Rightarrow> Some (KeyResults_merge x y)
                | (Some x, None) \<Rightarrow> Some x
                | (None, Some y) \<Rightarrow> Some y
                | (None, None) \<Rightarrow> None)
         else map_of (dict_set acc uc kr) uc')"
    by blast
  have "merge_loop a b (uc # ucs) acc = Inr d" using kr(1) d(1) by simp
  moreover have "\<forall>uc'. map_of d uc' =
        (if uc' \<in> set (uc # ucs)
         then (case (map_of (results_uc a) uc', map_of (results_uc b) uc') of
                  (Some x, Some y) \<Rightarrow> Some (KeyResults_merge x y)
                | (Some x, None) \<Rightarrow> Some x
                | (None, Some y) \<Rightarrow> Some y
                | (None, None) \<Rightarrow> None)
         else map_of acc uc')"
    using d(2) kr(2) by (simp add: map_of_dict_set)
  ultimately show ?case by blast
qed

text \<open>
  Claim C5. For any two UseCaseKeyResults \<open>a\<close> and \<open>b\<close>, \<^verbatim>\<open>a.merge(b)\<close> returns (the unguarded
  read never fails) a UseCaseKeyResults whose use cases are those of \<open>a\<close> together with those
  of \<open>b\<close>; a use case of both holds \<open>a\<close>'s KeyResults merged with \<open>b\<close>'s by the KeyResults
  merge, and a use case of one side only holds that side's KeyResults unchanged.
\<close>

theorem UseCaseKeyResults_merge_union:
  "\<exists>n. UseCaseKeyResults_merge a b = Inr n \<and>
     fst ` set (results_uc n) = fst ` set (results_uc a) \<union> fst ` set (results_uc b) \<and>
     (\<forall>uc. map_of (results_uc n) uc =
        (case (map_of (results_uc a) uc, map_of (results_uc b) uc) of
           (Some x, Some y) \<Rightarrow> Some (KeyResults_merge x y)
         | (Some x, None) \<Rightarrow> Some x
         | (None, Some y) \<Rightarrow> Some y
         | (None, None) \<Rightarrow> None))"
proof -
  let ?ucs = "remdups (map fst (results_uc a) @ map fst (results_uc b))"
  have s: "set ?ucs = fst ` set (results_uc a) \<union> fst ` set (results_uc b)" by simp
  then have "set ?ucs \<subseteq> fst ` set (results_uc a) \<union> fst ` set (results_uc b)" by simp
  from merge_loop_eq [OF this, of "[]"] obtain d where
    d: "merge_loop a b ?ucs [] = Inr d"
      "\<forall>uc. map_of d uc =
        (if uc \<in> set ?ucs
         then (case (map_of (results_uc a) uc, map_of (results_uc b) uc) of
                  (Some x, Some y) \<Rightarrow> Some (KeyResults_merge x y)
                | (Some x, None) \<Rightarrow> Some x
                | (None, Some y) \<Rightarrow> Some y
                | (None, None) \<Rightarrow> None)
         else map_of [] uc)"
    by blast
  have m: "map_of d uc =
        (case (map_of (results_uc a) uc, map_of (results_uc b) uc) of
           (Some x, Some y) \<Rightarrow> Some (KeyResults_merge x y)
         | (Some x, None) \<Rightarrow> Some x
         | (None, Some y) \<Rightarrow> Some y
         | (None, None) \<Rightarrow> None)" for uc
  proof (cases "uc \<in> set ?ucs")
    case True
    with d(2) show ?thesis by simp
  next
    case False
    then have "map_of (results_uc a) uc = None" "map_of (results_uc b) uc = None"
      unfolding s by (simp_all add: map_of_eq_None_iff)
    with False d(2) show ?thesis by simp
  qed
  have "fst ` set d = {uc. map_of d uc \<noteq> None}"
    using map_of_eq_None_iff [of d] by auto
  also have "\<dots> = fst ` set (results_uc a) \<union> fst ` set (results_uc b)"
    using map_of_eq_None_iff [of "results_uc a"] map_of_eq_None_iff [of "results_uc b"]
    by (auto simp: m split: option.splits)
  finally have k: "fst ` set d = fst ` set (results_uc a) \<union> fst ` set (results_uc b)" .
  have "UseCaseKeyResults_merge a b = Inr \<lparr>results_uc = d\<rparr>"
    by (simp add: UseCaseKeyResults_merge_def d(1))
  with k m show ?thesis by simp
qed

theorem UseCaseKeyResults_merge_union_witness:
  "UseCaseKeyResults_merge
     \<lparr>results_uc = [(''perf'', \<lparr>results = [(1, [(''x'', Some 5)])], meta = []\<rparr>),
                    (''spans'', \<lparr>results = [(1, [(''y'', Some 6)])], meta = []\<rparr>)]\<rparr>
     \<lparr>results_uc = [(''spans'', \<lparr>results = [(1, [(''y'', Some 7), (''z'', Some 8)])],
                                 meta = [(1, [(''z'', Metadata (Some 8) DB_READ None)])]\<rparr>),
                    (''custom'', \<lparr>results = [(2, [(''w'', None)])], meta = []\<rparr>)]\<rparr> =
   Inr \<lparr>results_uc =
         [(''perf'', \<lparr>results = [(1, [(''x'', Some 5)])], meta = []\<rparr>),
          (''spans'', \<lparr>results = [(1, [(''y'', Some 6), (''z'', Some 8)])],
                      meta = [(1, [(''z'', Metadata (Some 8) DB_READ None)])]\<rparr>),
          (''custom'', \<lparr>results = [(2, [(''w'', None)])], meta = []\<rparr>)]\<rparr>"
  using UseCaseKeyResults_merge_union
    [of "\<lparr>results_uc = [(''perf'', \<lparr>results = [(1, [(''x'', Some 5)])], meta = []\<rparr>),
                    (''spans'', \<lparr>results = [(1, [(''y'', Some 6)])], meta = []\<rparr>)]\<rparr>"
        "\<lparr>results_uc = [(''spans'', \<lparr>results = [(1, [(''y'', Some 7), (''z'', Some 8)])],
                                 meta = [(1, [(''z'', Metadata (Some 8) DB_READ None)])]\<rparr>),
                    (''custom'', \<lparr>results = [(2, [(''w'', None)])], meta = []\<rparr>)]\<rparr>"]
  by (simp add: UseCaseKeyResults_merge_def merge_use_case_def KeyResults_merge_def
      merge_into_def dd_modify_def dd_getitem_def dict_update_def dict_set_def)

end
